theory Spec2Isabelle
  imports Main "HOL-Library.Word"
begin

unbundle bit_operations_syntax

section \<open>Values of the Go program\<close>

text \<open>
  A Go \<open>string\<close> and a Go \<open>[]byte\<close> both hold bytes; \<open>len\<close> counts bytes. A \<open>rune\<close> is an
  \<open>int32\<close>; every rune that decoding a string yields is non-negative, so the unsigned
  order of \<open>32 word\<close> agrees with Go's comparisons on them, and \<open>EncodeRune\<close> compares
  \<open>uint32(r)\<close> anyway. The platform is a 64-bit one: \<open>int\<close> and \<open>uint\<close> have 64 bits, so
  \<open>12 + int(keySize) + int(valueSize)\<close> cannot overflow and is a natural number here.
\<close>

type_synonym byte = "8 word"
type_synonym rune = "32 word"
type_synonym gostring = "byte list"

text \<open>Every way the code stops without returning normally: run-time panics of slicing and
  indexing, the error value of \<open>headerFromBytes\<close>, the errors of the \<open>os\<close> calls, and the
  explicit \<open>panic\<close> calls.\<close>

datatype error =
    IndexOutOfRange
  | SliceBoundsOutOfRange
  | MakeLenOutOfRange
  | InvalidHeaderSize nat
  | ErrExist
  | ErrNotExist
  | ErrClosed
  | ErrNegativeOffset
  | ErrEOF
  | ErrFileTooLarge
  | WrittenNotDatalen

text \<open>Sequencing: the rest of a function body runs only when the call before it returned.\<close>

definition andThen :: "error + 'a \<Rightarrow> ('a \<Rightarrow> error + 'b) \<Rightarrow> error + 'b" where
  "andThen m f = (case m of Inl e \<Rightarrow> Inl e | Inr x \<Rightarrow> f x)"

section \<open>Byte order: \<open>binary.LittleEndian\<close>\<close>

text \<open>Writing \<open>bs\<close> into \<open>buf\<close> from index \<open>off\<close> on, as the assignments \<open>p[0] = \<dots>\<close>,
  \<open>p[1] = \<dots>\<close> on the slice \<open>p = buf[off:]\<close> do: the bytes land in the backing array of
  \<open>buf\<close>. Callers check the bounds first.\<close>

definition write_at :: "byte list \<Rightarrow> nat \<Rightarrow> byte list \<Rightarrow> byte list" where
  "write_at buf off bs = take off buf @ bs @ drop (off + length bs) buf"

text \<open>The four bytes \<open>byte(v)\<close>, \<open>byte(v >> 8)\<close>, \<open>byte(v >> 16)\<close>, \<open>byte(v >> 24)\<close>.\<close>

definition le32 :: "32 word \<Rightarrow> byte list" where
  "le32 v = [ucast v, ucast (drop_bit 8 v), ucast (drop_bit 16 v), ucast (drop_bit 24 v)]"

text \<open>\<open>PutUint32(b, v)\<close> with \<open>b = buf[off:]\<close>: the slice expression panics when \<open>off\<close> is beyond
  the length, the bounds check \<open>_ = b[3]\<close> when fewer than four bytes are left.\<close>

definition PutUint32 :: "byte list \<Rightarrow> nat \<Rightarrow> 32 word \<Rightarrow> error + byte list" where
  "PutUint32 buf off v =
     (if length buf < off then Inl SliceBoundsOutOfRange
      else if length buf - off < 4 then Inl IndexOutOfRange
      else Inr (write_at buf off (le32 v)))"

fun Uint32 :: "byte list \<Rightarrow> error + 32 word" where
  "Uint32 (b0 # b1 # b2 # b3 # bs) =
     Inr (ucast b0 OR push_bit 8 (ucast b1) OR push_bit 16 (ucast b2) OR push_bit 24 (ucast b3))"
| "Uint32 bs = Inl IndexOutOfRange"

section \<open>header.go\<close>

record header =
  timestamp :: "32 word"
  keySize :: "32 word"
  valueSize :: "32 word"

definition WriteBytes :: "header \<Rightarrow> byte list \<Rightarrow> error + byte list" where
  "WriteBytes h buf =
     andThen (PutUint32 buf 0 (timestamp h)) (\<lambda>b1.
     andThen (PutUint32 b1 4 (keySize h)) (\<lambda>b2.
     PutUint32 b2 8 (valueSize h)))"

text \<open>The twelve bytes \<open>WriteBytes\<close> puts at the front of a buffer.\<close>

definition header_bytes :: "32 word \<Rightarrow> 32 word \<Rightarrow> 32 word \<Rightarrow> byte list" where
  "header_bytes ts ks vs = le32 ts @ le32 ks @ le32 vs"

definition KeyLen :: "header \<Rightarrow> nat" where
  "KeyLen h = 12 + unat (keySize h) + unat (valueSize h)"

definition headerFromBytes :: "byte list \<Rightarrow> error + header" where
  "headerFromBytes buf =
     (if length buf \<noteq> 12 then Inl (InvalidHeaderSize (length buf))
      else
        andThen (Uint32 (take 4 buf)) (\<lambda>t.
        andThen (Uint32 (take 4 (drop 4 buf))) (\<lambda>k.
        andThen (Uint32 (take 4 (drop 8 buf))) (\<lambda>v.
        Inr \<lparr>timestamp = t, keySize = k, valueSize = v\<rparr>))))"

section \<open>UTF-8: the \<open>range\<close> clause over a string and \<open>utf8.EncodeRune\<close>\<close>

abbreviation RuneError :: rune where "RuneError \<equiv> 0xFFFD"
abbreviation RuneSelf :: byte where "RuneSelf \<equiv> 0x80"
abbreviation MaxRune :: rune where "MaxRune \<equiv> 0x10FFFF"
abbreviation surrogateMin :: rune where "surrogateMin \<equiv> 0xD800"
abbreviation surrogateMax :: rune where "surrogateMax \<equiv> 0xDFFF"
abbreviation rune1Max :: rune where "rune1Max \<equiv> 0x7F"
abbreviation rune2Max :: rune where "rune2Max \<equiv> 0x7FF"
abbreviation rune3Max :: rune where "rune3Max \<equiv> 0xFFFF"
abbreviation tx :: byte where "tx \<equiv> 0x80"
abbreviation t2 :: byte where "t2 \<equiv> 0xC0"
abbreviation t3 :: byte where "t3 \<equiv> 0xE0"
abbreviation t4 :: byte where "t4 \<equiv> 0xF0"
abbreviation t5 :: byte where "t5 \<equiv> 0xF8"
abbreviation maskx :: byte where "maskx \<equiv> 0x3F"
abbreviation mask2 :: byte where "mask2 \<equiv> 0x1F"
abbreviation mask3 :: byte where "mask3 \<equiv> 0x0F"
abbreviation mask4 :: byte where "mask4 \<equiv> 0x07"
abbreviation locb :: byte where "locb \<equiv> 0x80"
abbreviation hicb :: byte where "hicb \<equiv> 0xBF"

definition cont :: "byte \<Rightarrow> bool" where
  "cont b \<longleftrightarrow> locb \<le> b \<and> b \<le> hicb"

text \<open>One step of \<open>for i, val := range s\<close> on the rest of the string: the rune and the
  number of bytes the index advances by. A byte below \<open>RuneSelf\<close> is its own rune; otherwise
  the run-time's \<open>decoderune\<close> decodes two, three or four bytes and checks the result
  against the shortest-form, surrogate and \<open>MaxRune\<close> limits; every failure yields
  \<open>RuneError\<close> and advances by one byte.\<close>

fun decoderune :: "byte list \<Rightarrow> rune \<times> nat" where
  "decoderune [] = (RuneError, 1)"
| "decoderune (s0 # t) =
     (if s0 < RuneSelf then (ucast s0, 1)
      else if t2 \<le> s0 \<and> s0 < t3 then
        (case t of
           s1 # _ \<Rightarrow>
             if cont s1 then
               let r = push_bit 6 (ucast (s0 AND mask2)) OR ucast (s1 AND maskx) :: rune
               in if rune1Max < r then (r, 2) else (RuneError, 1)
             else (RuneError, 1)
         | _ \<Rightarrow> (RuneError, 1))
      else if t3 \<le> s0 \<and> s0 < t4 then
        (case t of
           s1 # s2 # _ \<Rightarrow>
             if cont s1 \<and> cont s2 then
               let r = push_bit 12 (ucast (s0 AND mask3)) OR push_bit 6 (ucast (s1 AND maskx))
                       OR ucast (s2 AND maskx) :: rune
               in if rune2Max < r \<and> \<not> (surrogateMin \<le> r \<and> r \<le> surrogateMax)
                  then (r, 3) else (RuneError, 1)
             else (RuneError, 1)
         | _ \<Rightarrow> (RuneError, 1))
      else if t4 \<le> s0 \<and> s0 < t5 then
        (case t of
           s1 # s2 # s3 # _ \<Rightarrow>
             if cont s1 \<and> cont s2 \<and> cont s3 then
               let r = push_bit 18 (ucast (s0 AND mask4)) OR push_bit 12 (ucast (s1 AND maskx))
                       OR push_bit 6 (ucast (s2 AND maskx)) OR ucast (s3 AND maskx) :: rune
               in if rune3Max < r \<and> r \<le> MaxRune then (r, 4) else (RuneError, 1)
             else (RuneError, 1)
         | _ \<Rightarrow> (RuneError, 1))
      else (RuneError, 1))"

text \<open>The bytes \<open>utf8.EncodeRune(p, r)\<close> writes to the front of \<open>p\<close>. The shifts act on runes
  that are non-negative in every branch that shifts.\<close>

definition rune_bytes :: "rune \<Rightarrow> byte list" where
  "rune_bytes r =
     (if r \<le> rune1Max then [ucast r]
      else if r \<le> rune2Max then
        [t2 OR ucast (drop_bit 6 r), tx OR (ucast r AND maskx)]
      else if r < surrogateMin \<or> (surrogateMax < r \<and> r \<le> rune3Max) then
        [t3 OR ucast (drop_bit 12 r), tx OR (ucast (drop_bit 6 r) AND maskx),
         tx OR (ucast r AND maskx)]
      else if rune3Max < r \<and> r \<le> MaxRune then
        [t4 OR ucast (drop_bit 18 r), tx OR (ucast (drop_bit 12 r) AND maskx),
         tx OR (ucast (drop_bit 6 r) AND maskx), tx OR (ucast r AND maskx)]
      else [0xEF, 0xBF, 0xBD])"

text \<open>\<open>utf8.EncodeRune(buf[off:], r)\<close>: the slice expression panics when \<open>off\<close> exceeds
  \<open>len(buf)\<close>, the write when the rest of the buffer is shorter than the encoding. The
  write lands in the backing array of \<open>buf\<close>.\<close>

definition EncodeRune :: "byte list \<Rightarrow> nat \<Rightarrow> rune \<Rightarrow> error + byte list" where
  "EncodeRune buf off r =
     (if length buf < off then Inl SliceBoundsOutOfRange
      else if length buf - off < length (rune_bytes r) then Inl IndexOutOfRange
      else Inr (write_at buf off (rune_bytes r)))"

text \<open>The loop \<open>for i, val := range s { utf8.EncodeRune(buf[base+i:], val) }\<close>; the last
  argument is the part of \<open>s\<close> from index \<open>i\<close> on.\<close>

function range_EncodeRune :: "byte list \<Rightarrow> nat \<Rightarrow> nat \<Rightarrow> gostring \<Rightarrow> error + byte list" where
  "range_EncodeRune buf base i s =
     (if s = [] then Inr buf
      else
        case EncodeRune buf (base + i) (fst (decoderune s)) of
          Inl e \<Rightarrow> Inl e
        | Inr buf' \<Rightarrow> range_EncodeRune buf' base (i + snd (decoderune s)) (drop (snd (decoderune s)) s))"
  by pat_completeness auto
termination
proof (relation "measure (\<lambda>(buf, base, i, s). length s)")
  fix buf :: "byte list" and base i :: nat and s :: gostring and buf' :: "byte list"
  assume "s \<noteq> []"
  moreover have "0 < snd (decoderune s)"
    by (cases s) (auto simp: Let_def split: list.splits)
  ultimately show "((buf', base, i + snd (decoderune s), drop (snd (decoderune s)) s),
                    (buf, base, i, s)) \<in> measure (\<lambda>(buf, base, i, s). length s)"
    by simp
qed simp

declare range_EncodeRune.simps [simp del]

section \<open>The record format: \<open>encodeKV\<close> and \<open>decodeKV\<close>\<close>

text \<open>\<open>make([]byte, n)\<close>: \<open>n\<close> zero bytes, capacity \<open>n\<close>.\<close>

definition makeslice :: "nat \<Rightarrow> byte list" where
  "makeslice n = replicate n 0"

definition encodeKV :: "32 word \<Rightarrow> gostring \<Rightarrow> gostring \<Rightarrow> error + (nat \<times> byte list)" where
  "encodeKV ts key val =
     (let h = \<lparr>timestamp = ts, keySize = of_nat (length key), valueSize = of_nat (length val)\<rparr>;
          buf = makeslice (KeyLen h)
      in andThen (WriteBytes h buf) (\<lambda>buf1.
         andThen (range_EncodeRune buf1 12 0 key) (\<lambda>buf2.
         andThen (range_EncodeRune buf2 (12 + unat (keySize h)) 0 val) (\<lambda>buf3.
         Inr (length buf3, buf3)))))"

text \<open>A slice seen by a callee: its \<open>len\<close> elements, and the bytes of the backing array
  between its length and its capacity, which a slice expression with an explicit upper
  bound may reach. \<open>s[lo:hi]\<close> needs \<open>lo \<le> hi \<le> cap(s)\<close>, \<open>s[lo:]\<close> needs \<open>lo \<le> len(s)\<close>.\<close>

record slice =
  elems :: "byte list"
  spare :: "byte list"

definition of_bytes :: "byte list \<Rightarrow> slice" where
  "of_bytes bs = \<lparr>elems = bs, spare = []\<rparr>"

definition slice_lo_hi :: "slice \<Rightarrow> nat \<Rightarrow> nat \<Rightarrow> error + slice" where
  "slice_lo_hi s lo hi =
     (if lo \<le> hi \<and> hi \<le> length (elems s) + length (spare s)
      then Inr \<lparr>elems = take (hi - lo) (drop lo (elems s @ spare s)),
                spare = drop hi (elems s @ spare s)\<rparr>
      else Inl SliceBoundsOutOfRange)"

definition slice_lo :: "slice \<Rightarrow> nat \<Rightarrow> error + slice" where
  "slice_lo s lo =
     (if lo \<le> length (elems s)
      then Inr \<lparr>elems = drop lo (elems s), spare = spare s\<rparr>
      else Inl SliceBoundsOutOfRange)"

text \<open>\<open>12+header.keySize\<close> is a \<open>uint32\<close> sum and wraps. The error branch of
  \<open>headerFromBytes\<close> is \<open>panic(err)\<close>.\<close>

definition decodeKV :: "slice \<Rightarrow> error + (32 word \<times> gostring \<times> gostring)" where
  "decodeKV data =
     andThen (slice_lo_hi data 0 12) (\<lambda>hb.
     andThen (headerFromBytes (elems hb)) (\<lambda>h.
     andThen (slice_lo_hi data 12 (unat (12 + keySize h))) (\<lambda>k.
     andThen (slice_lo data (unat (12 + keySize h))) (\<lambda>v.
     Inr (timestamp h, elems k, elems v)))))"

section \<open>The store\<close>

record keyEntry =
  fileId :: "64 word"
  valueSize :: "64 word"
  valuePos :: "64 word"
  timestamp :: "32 word"

text \<open>An \<open>*os.File\<close>: the path it was opened on and whether \<open>Close\<close> has been called on it.
  Every \<open>DiskStore\<close> opens a file of its own, so no two stores share one.\<close>

type_synonym path = string

record File =
  name :: path
  closed :: bool

record DiskStore =
  f :: File
  curPos :: "64 word"

text \<open>What the calls act on beside the receiver: the file system, and the package-level
  variable \<open>keyDir\<close>, one map for the whole process.\<close>

record world =
  files :: "path \<rightharpoonup> byte list"
  keyDir :: "gostring \<rightharpoonup> keyEntry"

text \<open>\<open>var keyDir map[string]keyEntry = map[string]keyEntry{}\<close>: a process starts with an
  empty map, whatever the files hold.\<close>

definition keyDir_init :: "gostring \<rightharpoonup> keyEntry" where
  "keyDir_init = Map.empty"

definition process_start :: "(path \<rightharpoonup> byte list) \<Rightarrow> world" where
  "process_start fs = \<lparr>files = fs, keyDir = keyDir_init\<rparr>"

subsection \<open>The \<open>os\<close> calls\<close>

text \<open>The file system of the model is a map from paths to contents, without directories. A
  call fails where the model can tell: the empty path, which names no file, a missing file,
  a closed handle, a negative offset, a read past the end, a file that would grow beyond
  the largest offset. Permissions and device errors are not modelled.\<close>

definition os_Stat :: "path \<Rightarrow> world \<Rightarrow> error + nat" where
  "os_Stat fileName w =
     (if fileName = [] then Inl ErrNotExist
      else case files w fileName of None \<Rightarrow> Inl ErrNotExist | Some bs \<Rightarrow> Inr (length bs))"

text \<open>\<open>os.OpenFile(fileName, os.O_RDWR|os.O_CREATE|os.O_APPEND, 0644)\<close>: the empty path is an
  error; an absent file is created empty, an existing one is left as it is.\<close>

definition os_OpenFile :: "path \<Rightarrow> world \<Rightarrow> error + (File \<times> world)" where
  "os_OpenFile fileName w =
     (if fileName = [] then Inl ErrNotExist
      else case files w fileName of
        None \<Rightarrow> Inr (\<lparr>name = fileName, closed = False\<rparr>, w\<lparr>files := (files w)(fileName \<mapsto> [])\<rparr>)
      | Some bs \<Rightarrow> Inr (\<lparr>name = fileName, closed = False\<rparr>, w))"

text \<open>\<open>f.Write(data)\<close> on a file opened with \<open>O_APPEND\<close>: the bytes go to the end of the
  file; the count returned is \<open>len(data)\<close>.\<close>

definition Write :: "File \<Rightarrow> byte list \<Rightarrow> world \<Rightarrow> error + (nat \<times> world)" where
  "Write fl data w =
     (if closed fl then Inl ErrClosed
      else case files w (name fl) of
        None \<Rightarrow> Inl ErrNotExist
      | Some bs \<Rightarrow>
          if 2 ^ 63 \<le> length bs + length data then Inl ErrFileTooLarge
          else Inr (length data, w\<lparr>files := (files w)(name fl \<mapsto> bs @ data)\<rparr>))"

text \<open>\<open>f.ReadAt(buf, off)\<close> with \<open>len(buf) = n\<close>: the bytes read into \<open>buf\<close>. The offset is an
  \<open>int64\<close>; a negative one is refused first, an empty buffer reads nothing, and fewer than
  \<open>n\<close> bytes at \<open>off\<close> is the error \<open>io.EOF\<close>.\<close>

definition ReadAt :: "File \<Rightarrow> nat \<Rightarrow> 64 word \<Rightarrow> world \<Rightarrow> error + byte list" where
  "ReadAt fl n off w =
     (if sint off < 0 then Inl ErrNegativeOffset
      else if n = 0 then Inr []
      else if closed fl then Inl ErrClosed
      else case files w (name fl) of
        None \<Rightarrow> Inl ErrNotExist
      | Some bs \<Rightarrow>
          if nat (sint off) + n \<le> length bs then Inr (take n (drop (nat (sint off)) bs))
          else Inl ErrEOF)"

definition os_Close :: "File \<Rightarrow> error + File" where
  "os_Close fl = (if closed fl then Inl ErrClosed else Inr (fl\<lparr>closed := True\<rparr>))"

text \<open>\<open>make([]byte, n)\<close> with \<open>n\<close> of type \<open>uint\<close>: a length that is negative as an \<open>int\<close>
  panics.\<close>

definition make_uint :: "64 word \<Rightarrow> error + byte list" where
  "make_uint n = (if sint n < 0 then Inl MakeLenOutOfRange else Inr (makeslice (unat n)))"

subsection \<open>\<open>NewDiskStore\<close>, \<open>Get\<close>, \<open>Set\<close>, \<open>Close\<close>\<close>

text \<open>\<open>NewDiskStore\<close> takes the size \<open>os.Stat\<close> reports as the cursor, opens the file and
  returns. It reads nothing from the file and does not touch \<open>keyDir\<close>. The second
  \<open>os.Stat\<close> call discards its result.\<close>

definition NewDiskStore :: "path \<Rightarrow> world \<Rightarrow> error + (DiskStore \<times> world)" where
  "NewDiskStore fileName w =
     (case os_Stat fileName w of
        Inl err \<Rightarrow>
          if err = ErrExist then Inl err
          else andThen (os_OpenFile fileName w) (\<lambda>(fl, w'). Inr (\<lparr>f = fl, curPos = 0\<rparr>, w'))
      | Inr sz \<Rightarrow>
          andThen (os_OpenFile fileName w) (\<lambda>(fl, w'). Inr (\<lparr>f = fl, curPos = of_nat sz\<rparr>, w')))"

text \<open>\<open>Get\<close> returns the empty string for a key that \<open>keyDir\<close> does not hold; otherwise it
  reads \<open>valueSize\<close> bytes at \<open>valuePos\<close> and decodes them as a whole record.\<close>

definition Get :: "DiskStore \<Rightarrow> gostring \<Rightarrow> world \<Rightarrow> error + gostring" where
  "Get d key w =
     (case keyDir w key of
        None \<Rightarrow> Inr []
      | Some keyInfo \<Rightarrow>
          andThen (make_uint (valueSize keyInfo)) (\<lambda>buf.
          andThen (ReadAt (f d) (length buf) (valuePos keyInfo) w) (\<lambda>buf'.
          andThen (decodeKV (of_bytes buf')) (\<lambda>(ts, k, val). Inr val))))"

text \<open>\<open>Set\<close>; \<open>now\<close> is the value of \<open>time.Now().Unix()\<close>, an \<open>int64\<close> that \<open>uint32(timestamp)\<close>
  truncates. The entry records the length of the whole record as \<open>valueSize\<close> and the
  cursor before the write, the start of the record, as \<open>valuePos\<close>.\<close>

definition Set :: "DiskStore \<Rightarrow> gostring \<Rightarrow> gostring \<Rightarrow> 64 word \<Rightarrow> world
    \<Rightarrow> error + (DiskStore \<times> world)" where
  "Set d key val now w =
     andThen (encodeKV (ucast now) key val) (\<lambda>(dataLen, data).
     andThen (Write (f d) data w) (\<lambda>(written, w').
     if written \<noteq> dataLen then Inl WrittenNotDatalen
     else Inr (d\<lparr>curPos := curPos d + of_nat dataLen\<rparr>,
               w'\<lparr>keyDir := (keyDir w')(key \<mapsto>
                   \<lparr>fileId = 0, valueSize = of_nat dataLen, valuePos = curPos d,
                    timestamp = ucast now\<rparr>)\<rparr>)))"

definition Close :: "DiskStore \<Rightarrow> error + (bool \<times> DiskStore)" where
  "Close d = andThen (os_Close (f d)) (\<lambda>fl. Inr (True, d\<lparr>f := fl\<rparr>))"

text \<open>A store as \<open>NewDiskStore\<close> returns it and as its own \<open>Set\<close> calls keep it while
  nothing else writes to the file: its file is open and its cursor is the length of the
  file.\<close>

definition store_ok :: "DiskStore \<Rightarrow> world \<Rightarrow> bool" where
  "store_ok d w \<longleftrightarrow>
     \<not> closed (f d) \<and>
     (case files w (name (f d)) of None \<Rightarrow> False | Some bs \<Rightarrow> sint (curPos d) = int (length bs))"

section \<open>Example stores\<close>

text \<open>The key and value of the usage example in the source, the store and the file
  system \<open>NewDiskStore\<close> produces for a file that did not exist, and two stores on two
  files.\<close>

abbreviation books_db :: path where "books_db \<equiv> ''books.db''"

abbreviation fresh_store :: DiskStore where
  "fresh_store \<equiv> \<lparr>f = \<lparr>name = books_db, closed = False\<rparr>, curPos = 0\<rparr>"

abbreviation fresh_world :: world where
  "fresh_world \<equiv> \<lparr>files = [books_db \<mapsto> []], keyDir = Map.empty\<rparr>"

abbreviation othello :: gostring where
  "othello \<equiv> [0x6F, 0x74, 0x68, 0x65, 0x6C, 0x6C, 0x6F]"

abbreviation shakespeare :: gostring where
  "shakespeare \<equiv> [0x73, 0x68, 0x61, 0x6B, 0x65, 0x73, 0x70, 0x65, 0x61, 0x72, 0x65]"

abbreviation a_db :: path where "a_db \<equiv> ''a.db''"

abbreviation b_db :: path where "b_db \<equiv> ''b.db''"

abbreviation store_a :: DiskStore where
  "store_a \<equiv> \<lparr>f = \<lparr>name = a_db, closed = False\<rparr>, curPos = 0\<rparr>"

abbreviation store_b :: DiskStore where
  "store_b \<equiv> \<lparr>f = \<lparr>name = b_db, closed = False\<rparr>, curPos = 0\<rparr>"

abbreviation two_files :: world where
  "two_files \<equiv> \<lparr>files = [b_db \<mapsto> [], a_db \<mapsto> []], keyDir = Map.empty\<rparr>"

section \<open>Well-formed UTF-8\<close>

text \<open>The well-formed byte sequences of the Unicode standard (its table 3-7), which
  \<open>utf8.ValidString\<close> accepts: the strings that are valid UTF-8.\<close>

definition second3 :: "byte \<Rightarrow> byte \<Rightarrow> bool" where
  "second3 b0 b1 =
     (if b0 = 0xE0 then 0xA0 \<le> b1 \<and> b1 \<le> 0xBF
      else if b0 = 0xED then 0x80 \<le> b1 \<and> b1 \<le> 0x9F
      else cont b1)"

definition second4 :: "byte \<Rightarrow> byte \<Rightarrow> bool" where
  "second4 b0 b1 =
     (if b0 = 0xF0 then 0x90 \<le> b1 \<and> b1 \<le> 0xBF
      else if b0 = 0xF4 then 0x80 \<le> b1 \<and> b1 \<le> 0x8F
      else cont b1)"

fun valid_utf8 :: "byte list \<Rightarrow> bool" where
  "valid_utf8 [] = True"
| "valid_utf8 (b0 # t) =
     (if b0 \<le> 0x7F then valid_utf8 t
      else if 0xC2 \<le> b0 \<and> b0 \<le> 0xDF then
        (case t of b1 # t' \<Rightarrow> cont b1 \<and> valid_utf8 t' | _ \<Rightarrow> False)
      else if 0xE0 \<le> b0 \<and> b0 \<le> 0xEF then
        (case t of b1 # b2 # t' \<Rightarrow> second3 b0 b1 \<and> cont b2 \<and> valid_utf8 t' | _ \<Rightarrow> False)
      else if 0xF0 \<le> b0 \<and> b0 \<le> 0xF4 then
        (case t of b1 # b2 # b3 # t' \<Rightarrow>
           second4 b0 b1 \<and> cont b2 \<and> cont b3 \<and> valid_utf8 t' | _ \<Rightarrow> False)
      else False)"

section \<open>Bytes and runes as numbers\<close>

text \<open>The bit operations of the decoder and the encoder, read as arithmetic on the
  unsigned values: a mask is a remainder, a shift a multiplication or a division, and
  \<open>OR\<close> of a multiple of \<open>2 ^ k\<close> with a value below \<open>2 ^ k\<close> is their sum.\<close>

lemma or_add_nat: "a < 2 ^ k \<Longrightarrow> (b * 2 ^ k) OR a = b * 2 ^ k + (a::nat)"
proof -
  assume a: "a < 2 ^ k"
  have "b * 2 ^ k + a = (b * 2 ^ k) OR a"
  proof (rule disjunctive_add)
    fix n
    have "take_bit k a = a" using a by (simp add: take_bit_nat_eq_self)
    then have "bit a n \<Longrightarrow> n < k" by (metis bit_take_bit_iff)
    moreover have "bit (b * 2 ^ k) n \<Longrightarrow> k \<le> n"
      by (metis bit_push_bit_iff push_bit_eq_mult)
    ultimately show "\<not> bit (b * 2 ^ k) n \<or> \<not> bit a n" by fastforce
  qed
  then show ?thesis by simp
qed

lemma unat_byte_lt: "unat (b::byte) < 256"
  using unsigned_less [of b] by simp

lemma unat_ucast_byte_rune: "unat (ucast (b::byte) :: rune) = unat b"
proof -
  have "unat b < 2 ^ 32" using unat_byte_lt [of b] by simp
  then show ?thesis by (simp add: unsigned_ucast_eq take_bit_nat_eq_self)
qed

lemma unat_ucast_rune_byte: "unat (ucast (r::rune) :: byte) = unat r mod 256"
  by (simp add: unsigned_ucast_eq take_bit_eq_mod)

lemma unat_drop_bit_rune: "unat (drop_bit k (r::rune)) = unat r div 2 ^ k"
  by (simp only: unat_drop_bit_eq drop_bit_eq_div [where ?'a = nat])

lemma unat_and_maskx: "unat ((b::byte) AND maskx) = unat b mod 64"
proof -
  have "b AND maskx = take_bit 6 b" by (simp add: take_bit_eq_mask mask_eq_exp_minus_1)
  moreover have "unat (take_bit 6 b) = unat b mod 64"
    by (simp only: unsigned_take_bit_eq take_bit_eq_mod [where ?'a = nat]) simp
  ultimately show ?thesis by (simp only:)
qed

lemma unat_and_mask2: "unat ((b::byte) AND mask2) = unat b mod 32"
proof -
  have "b AND mask2 = take_bit 5 b" by (simp add: take_bit_eq_mask mask_eq_exp_minus_1)
  moreover have "unat (take_bit 5 b) = unat b mod 32"
    by (simp only: unsigned_take_bit_eq take_bit_eq_mod [where ?'a = nat]) simp
  ultimately show ?thesis by (simp only:)
qed

lemma unat_and_mask3: "unat ((b::byte) AND mask3) = unat b mod 16"
proof -
  have "b AND mask3 = take_bit 4 b" by (simp add: take_bit_eq_mask mask_eq_exp_minus_1)
  moreover have "unat (take_bit 4 b) = unat b mod 16"
    by (simp only: unsigned_take_bit_eq take_bit_eq_mod [where ?'a = nat]) simp
  ultimately show ?thesis by (simp only:)
qed

lemma unat_and_mask4: "unat ((b::byte) AND mask4) = unat b mod 8"
proof -
  have "b AND mask4 = take_bit 3 b" by (simp add: take_bit_eq_mask mask_eq_exp_minus_1)
  moreover have "unat (take_bit 3 b) = unat b mod 8"
    by (simp only: unsigned_take_bit_eq take_bit_eq_mod [where ?'a = nat]) simp
  ultimately show ?thesis by (simp only:)
qed

lemma unat_push_bit_rune:
  "unat x * 2 ^ k < 4294967296 \<Longrightarrow> unat (push_bit k (x::rune)) = unat x * 2 ^ k"
proof -
  assume a: "unat x * 2 ^ k < 4294967296"
  have "unat (push_bit k x) = take_bit 32 (unat x * 2 ^ k)"
    by (simp only: unsigned_push_bit_eq push_bit_eq_mult [where ?'a = nat]) simp
  also have "\<dots> = unat x * 2 ^ k"
    using a by (intro take_bit_nat_eq_self) simp
  finally show ?thesis .
qed

lemma unat_or_rune:
  "unat (x::rune) = m * 2 ^ k \<Longrightarrow> unat y < 2 ^ k \<Longrightarrow> unat (x OR y) = unat x + unat y"
  by (simp add: unsigned_or_eq or_add_nat)

lemma unat_or_byte:
  "unat (x::byte) = m * 2 ^ k \<Longrightarrow> unat y < 2 ^ k \<Longrightarrow> unat (x OR y) = unat x + unat y"
  by (simp add: unsigned_or_eq or_add_nat)

lemma dec2_unat:
  "unat (push_bit 6 (ucast (s0 AND mask2)) OR ucast (s1 AND maskx) :: rune)
   = (unat s0 mod 32) * 64 + unat s1 mod 64"
proof -
  let ?a = "ucast (s0 AND mask2) :: rune" and ?b = "ucast (s1 AND maskx) :: rune"
  have a: "unat ?a = unat s0 mod 32" by (simp only: unat_ucast_byte_rune unat_and_mask2)
  have b: "unat ?b = unat s1 mod 64" by (simp only: unat_ucast_byte_rune unat_and_maskx)
  have "unat ?a * 2 ^ 6 < 4294967296" unfolding a by simp
  then have pa: "unat (push_bit 6 ?a) = (unat s0 mod 32) * 2 ^ 6"
    unfolding a [symmetric] by (rule unat_push_bit_rune)
  have "unat (push_bit 6 ?a OR ?b) = unat (push_bit 6 ?a) + unat ?b"
    by (rule unat_or_rune [where k = 6, OF pa]) (simp add: b)
  then show ?thesis by (simp add: pa b)
qed

lemma dec3_unat:
  "unat (push_bit 12 (ucast (s0 AND mask3)) OR push_bit 6 (ucast (s1 AND maskx))
         OR ucast (s2 AND maskx) :: rune)
   = (unat s0 mod 16) * 4096 + (unat s1 mod 64) * 64 + unat s2 mod 64"
proof -
  let ?a = "ucast (s0 AND mask3) :: rune" and ?b = "ucast (s1 AND maskx) :: rune"
  and ?c = "ucast (s2 AND maskx) :: rune"
  have a: "unat ?a = unat s0 mod 16" by (simp only: unat_ucast_byte_rune unat_and_mask3)
  have b: "unat ?b = unat s1 mod 64" by (simp only: unat_ucast_byte_rune unat_and_maskx)
  have c: "unat ?c = unat s2 mod 64" by (simp only: unat_ucast_byte_rune unat_and_maskx)
  have "unat ?a * 2 ^ 12 < 4294967296" unfolding a by simp
  then have pa: "unat (push_bit 12 ?a) = (unat s0 mod 16) * 2 ^ 12"
    unfolding a [symmetric] by (rule unat_push_bit_rune)
  have "unat ?b * 2 ^ 6 < 4294967296" unfolding b by simp
  then have pb: "unat (push_bit 6 ?b) = (unat s1 mod 64) * 2 ^ 6"
    unfolding b [symmetric] by (rule unat_push_bit_rune)
  have bc: "unat (push_bit 6 ?b OR ?c) = unat (push_bit 6 ?b) + unat ?c"
    by (rule unat_or_rune [where k = 6, OF pb]) (simp add: c)
  have "unat (push_bit 12 ?a OR (push_bit 6 ?b OR ?c))
        = unat (push_bit 12 ?a) + unat (push_bit 6 ?b OR ?c)"
    by (rule unat_or_rune [where k = 12, OF pa]) (simp add: bc pb c)
  then show ?thesis by (simp add: pa bc pb c)
qed

lemma dec4_unat:
  "unat (push_bit 18 (ucast (s0 AND mask4)) OR push_bit 12 (ucast (s1 AND maskx))
         OR push_bit 6 (ucast (s2 AND maskx)) OR ucast (s3 AND maskx) :: rune)
   = (unat s0 mod 8) * 262144 + (unat s1 mod 64) * 4096 + (unat s2 mod 64) * 64
     + unat s3 mod 64"
proof -
  let ?a = "ucast (s0 AND mask4) :: rune" and ?b = "ucast (s1 AND maskx) :: rune"
  and ?c = "ucast (s2 AND maskx) :: rune" and ?d = "ucast (s3 AND maskx) :: rune"
  have a: "unat ?a = unat s0 mod 8" by (simp only: unat_ucast_byte_rune unat_and_mask4)
  have b: "unat ?b = unat s1 mod 64" by (simp only: unat_ucast_byte_rune unat_and_maskx)
  have c: "unat ?c = unat s2 mod 64" by (simp only: unat_ucast_byte_rune unat_and_maskx)
  have d: "unat ?d = unat s3 mod 64" by (simp only: unat_ucast_byte_rune unat_and_maskx)
  have "unat ?a * 2 ^ 18 < 4294967296" unfolding a by simp
  then have pa: "unat (push_bit 18 ?a) = (unat s0 mod 8) * 2 ^ 18"
    unfolding a [symmetric] by (rule unat_push_bit_rune)
  have "unat ?b * 2 ^ 12 < 4294967296" unfolding b by simp
  then have pb: "unat (push_bit 12 ?b) = (unat s1 mod 64) * 2 ^ 12"
    unfolding b [symmetric] by (rule unat_push_bit_rune)
  have "unat ?c * 2 ^ 6 < 4294967296" unfolding c by simp
  then have pc: "unat (push_bit 6 ?c) = (unat s2 mod 64) * 2 ^ 6"
    unfolding c [symmetric] by (rule unat_push_bit_rune)
  have cd: "unat (push_bit 6 ?c OR ?d) = unat (push_bit 6 ?c) + unat ?d"
    by (rule unat_or_rune [where k = 6, OF pc]) (simp add: d)
  have bcd: "unat (push_bit 12 ?b OR (push_bit 6 ?c OR ?d))
        = unat (push_bit 12 ?b) + unat (push_bit 6 ?c OR ?d)"
    by (rule unat_or_rune [where k = 12, OF pb]) (simp add: cd pc d)
  have "unat (push_bit 18 ?a OR (push_bit 12 ?b OR (push_bit 6 ?c OR ?d)))
        = unat (push_bit 18 ?a) + unat (push_bit 12 ?b OR (push_bit 6 ?c OR ?d))"
    by (rule unat_or_rune [where k = 18, OF pa]) (simp add: bcd cd pb pc d)
  then show ?thesis by (simp add: pa bcd cd pb pc d)
qed

lemma enc_last: "unat (tx OR (ucast (r::rune) AND maskx)) = 128 + unat r mod 64"
proof -
  have y: "unat (ucast r AND maskx) = unat r mod 64"
    by (simp only: unat_and_maskx unat_ucast_rune_byte) (simp add: mod_mod_cancel)
  have "unat (tx OR (ucast r AND maskx)) = unat tx + unat (ucast r AND maskx)"
    by (rule unat_or_byte [where k = 6 and m = 2]) (simp_all add: y)
  then show ?thesis by (simp add: y)
qed

lemma enc_cont: "unat (tx OR (ucast (drop_bit k (r::rune)) AND maskx)) = 128 + (unat r div 2 ^ k) mod 64"
proof -
  have y: "unat (ucast (drop_bit k r) AND maskx) = (unat r div 2 ^ k) mod 64"
    by (simp only: unat_and_maskx unat_ucast_rune_byte unat_drop_bit_rune) (simp add: mod_mod_cancel)
  have "unat (tx OR (ucast (drop_bit k r) AND maskx)) = unat tx + unat (ucast (drop_bit k r) AND maskx)"
    by (rule unat_or_byte [where k = 6 and m = 2]) (simp_all add: y)
  then show ?thesis by (simp add: y)
qed

lemma enc_lead2: "unat (r::rune) < 2048 \<Longrightarrow> unat (t2 OR ucast (drop_bit 6 r)) = 192 + unat r div 64"
proof -
  assume a: "unat r < 2048"
  have y: "unat (ucast (drop_bit 6 r) :: byte) = unat r div 64"
    using a by (simp only: unat_ucast_rune_byte unat_drop_bit_rune) simp
  have "unat (t2 OR ucast (drop_bit 6 r)) = unat t2 + unat (ucast (drop_bit 6 r) :: byte)"
    by (rule unat_or_byte [where k = 5 and m = 6]) (use a in \<open>simp_all add: y\<close>)
  then show ?thesis by (simp add: y)
qed

lemma enc_lead3: "unat (r::rune) < 65536 \<Longrightarrow> unat (t3 OR ucast (drop_bit 12 r)) = 224 + unat r div 4096"
proof -
  assume a: "unat r < 65536"
  have y: "unat (ucast (drop_bit 12 r) :: byte) = unat r div 4096"
    using a by (simp only: unat_ucast_rune_byte unat_drop_bit_rune) simp
  have "unat (t3 OR ucast (drop_bit 12 r)) = unat t3 + unat (ucast (drop_bit 12 r) :: byte)"
    by (rule unat_or_byte [where k = 4 and m = 14]) (use a in \<open>simp_all add: y\<close>)
  then show ?thesis by (simp add: y)
qed

lemma enc_lead4: "unat (r::rune) < 2097152 \<Longrightarrow> unat (t4 OR ucast (drop_bit 18 r)) = 240 + unat r div 262144"
proof -
  assume a: "unat r < 2097152"
  have y: "unat (ucast (drop_bit 18 r) :: byte) = unat r div 262144"
    using a by (simp only: unat_ucast_rune_byte unat_drop_bit_rune) simp
  have "unat (t4 OR ucast (drop_bit 18 r)) = unat t4 + unat (ucast (drop_bit 18 r) :: byte)"
    by (rule unat_or_byte [where k = 3 and m = 30]) (use a in \<open>simp_all add: y\<close>)
  then show ?thesis by (simp add: y)
qed



subsection \<open>The arithmetic of the well-formed byte ranges\<close>

lemma mod_range: "k * m \<le> x \<Longrightarrow> x < k * m + m \<Longrightarrow> x mod m = x - k * (m::nat)"
proof -
  assume a: "k * m \<le> x" "x < k * m + m"
  then have 1: "x = (x - k * m) + k * m" and 2: "x - k * m < m" by simp_all
  have "x mod m = ((x - k * m) + k * m) mod m" using 1 by simp
  also have "\<dots> = (x - k * m) mod m" by simp
  also have "\<dots> = x - k * m" using 2 by simp
  finally show ?thesis .
qed

lemma mod_base: "c < m \<Longrightarrow> (q * m + c) mod m = (c::nat)"
  by simp

lemma arith2:
  assumes "194 \<le> x0" "x0 \<le> 223" "128 \<le> x1" "x1 \<le> 191"
    and r: "r = (x0 mod 32) * 64 + x1 mod 64"
  shows "128 \<le> r \<and> r < 2048 \<and> 192 + r div 64 = x0 \<and> 128 + r mod 64 = (x1::nat)"
proof -
  define a where "a = x0 - 192"
  define b where "b = x1 - 128"
  have a: "x0 = 192 + a" "2 \<le> a" "a < 32" using assms by (simp_all add: a_def)
  have b: "x1 = 128 + b" "b < 64" using assms by (simp_all add: b_def)
  have "x0 mod 32 = a" using mod_range [of 6 32 x0] assms by (simp add: a_def)
  moreover have "x1 mod 64 = b" using mod_range [of 2 64 x1] assms by (simp add: b_def)
  ultimately have r': "r = a * 64 + b" using r by simp
  have d: "r div 64 = a" and m: "r mod 64 = b" using b(2) by (simp_all add: r')
  have "128 \<le> r" "r < 2048" using a b by (simp_all add: r')
  then show ?thesis using a b d m by simp
qed

lemma arith3:
  assumes "224 \<le> x0" "x0 \<le> 239" "128 \<le> x1" "x1 \<le> 191" "128 \<le> x2" "x2 \<le> 191"
    and e0: "x0 = 224 \<longrightarrow> 160 \<le> x1" and ed: "x0 = 237 \<longrightarrow> x1 \<le> 159"
    and r: "r = (x0 mod 16) * 4096 + (x1 mod 64) * 64 + x2 mod 64"
  shows "2048 \<le> r \<and> r < 65536 \<and> (r < 55296 \<or> 57343 < r) \<and> 224 + r div 4096 = x0
         \<and> 128 + r div 64 mod 64 = x1 \<and> 128 + r mod 64 = (x2::nat)"
proof -
  define a where "a = x0 - 224"
  define b where "b = x1 - 128"
  define c where "c = x2 - 128"
  have a: "x0 = 224 + a" "a < 16" using assms by (simp_all add: a_def)
  have b: "x1 = 128 + b" "b < 64" using assms by (simp_all add: b_def)
  have c: "x2 = 128 + c" "c < 64" using assms by (simp_all add: c_def)
  have "x0 mod 16 = a" using mod_range [of 14 16 x0] assms by (simp add: a_def)
  moreover have "x1 mod 64 = b" using mod_range [of 2 64 x1] assms by (simp add: b_def)
  moreover have "x2 mod 64 = c" using mod_range [of 2 64 x2] assms by (simp add: c_def)
  ultimately have r': "r = a * 4096 + b * 64 + c" using r by simp
  have r'': "r = (a * 64 + b) * 64 + c" by (simp add: r')
  have d1: "r div 64 = a * 64 + b" using c(2) by (simp add: r'')
  have d2: "r div 64 mod 64 = b" using b(2) by (simp add: d1)
  have m: "r mod 64 = c" unfolding r'' using c(2) by (rule mod_base)
  have "r div 4096 = (r div 64) div 64" by (simp add: div_mult2_eq)
  then have d3: "r div 4096 = a" using b(2) by (simp add: d1)
  have lo: "2048 \<le> r"
  proof (cases "a = 0")
    case True then have "32 \<le> b" using e0 a b by simp
    then show ?thesis by (simp add: r')
  next
    case False then show ?thesis by (simp add: r')
  qed
  have hi: "r < 65536" using a b c by (simp add: r')
  have sur: "r < 55296 \<or> 57343 < r"
  proof -
    consider "a < 13" | "a = 13" | "13 < a" by linarith
    then show ?thesis
    proof cases
      case 1 then show ?thesis using b c by (simp add: r')
    next
      case 2 then have "b < 32" using ed a b by simp
      then show ?thesis using 2 c by (simp add: r')
    next
      case 3 then show ?thesis by (simp add: r')
    qed
  qed
  show ?thesis using lo hi sur a b c d2 d3 m by simp
qed

lemma arith4:
  assumes "240 \<le> x0" "x0 \<le> 244" "128 \<le> x1" "x1 \<le> 191" "128 \<le> x2" "x2 \<le> 191"
     "128 \<le> x3" "x3 \<le> 191"
    and f0: "x0 = 240 \<longrightarrow> 144 \<le> x1" and f4: "x0 = 244 \<longrightarrow> x1 \<le> 143"
    and r: "r = (x0 mod 8) * 262144 + (x1 mod 64) * 4096 + (x2 mod 64) * 64 + x3 mod 64"
  shows "65536 \<le> r \<and> r \<le> 1114111 \<and> 240 + r div 262144 = x0
         \<and> 128 + r div 4096 mod 64 = x1 \<and> 128 + r div 64 mod 64 = x2
         \<and> 128 + r mod 64 = (x3::nat)"
proof -
  define a where "a = x0 - 240"
  define b where "b = x1 - 128"
  define c where "c = x2 - 128"
  define d where "d = x3 - 128"
  have a: "x0 = 240 + a" "a < 5" using assms by (simp_all add: a_def)
  have b: "x1 = 128 + b" "b < 64" using assms by (simp_all add: b_def)
  have c: "x2 = 128 + c" "c < 64" using assms by (simp_all add: c_def)
  have d: "x3 = 128 + d" "d < 64" using assms by (simp_all add: d_def)
  have "x0 mod 8 = a" using mod_range [of 30 8 x0] assms by (simp add: a_def)
  moreover have "x1 mod 64 = b" using mod_range [of 2 64 x1] assms by (simp add: b_def)
  moreover have "x2 mod 64 = c" using mod_range [of 2 64 x2] assms by (simp add: c_def)
  moreover have "x3 mod 64 = d" using mod_range [of 2 64 x3] assms by (simp add: d_def)
  ultimately have r': "r = a * 262144 + b * 4096 + c * 64 + d" using r by simp
  have r'': "r = ((a * 64 + b) * 64 + c) * 64 + d" by (simp add: r')
  have d1: "r div 64 = (a * 64 + b) * 64 + c" using d(2) by (simp add: r'')
  have d2: "r div 64 mod 64 = c" unfolding d1 using c(2) by (rule mod_base)
  have m: "r mod 64 = d" unfolding r'' using d(2) by (rule mod_base)
  have "r div 4096 = (r div 64) div 64" by (simp add: div_mult2_eq)
  then have d3: "r div 4096 = a * 64 + b" using c(2) by (simp add: d1)
  have d4: "r div 4096 mod 64 = b" using b(2) by (simp add: d3)
  have "r div 262144 = (r div 4096) div 64" by (simp add: div_mult2_eq)
  then have d5: "r div 262144 = a" using b(2) by (simp add: d3)
  have lo: "65536 \<le> r"
  proof (cases "a = 0")
    case True then have "16 \<le> b" using f0 a b by simp
    then show ?thesis by (simp add: r')
  next
    case False then show ?thesis by (simp add: r')
  qed
  have hi: "r \<le> 1114111"
  proof (cases "a = 4")
    case True then have "b < 16" using f4 a b by simp
    then show ?thesis using True c d by (simp add: r')
  next
    case False then have "a < 4" using a by simp
    then show ?thesis using b c d by (simp add: r')
  qed
  show ?thesis using lo hi a b c d d2 d4 d5 m by simp
qed


section \<open>Decoding a well-formed sequence and encoding the rune gives the bytes back\<close>

lemma byte_eqI: "unat (a::byte) = unat b \<Longrightarrow> a = b"
  by (simp add: word_unat_eq_iff)

lemma step1:
  assumes "b0 \<le> (0x7F::byte)"
  shows "decoderune (b0 # t) = (ucast b0, 1) \<and> rune_bytes (ucast b0) = [b0]"
proof -
  have x: "unat b0 \<le> 127" using assms by (simp add: word_le_nat_alt)
  have lt: "b0 < 0x80" using x by (simp add: word_less_nat_alt)
  have r: "unat (ucast b0 :: rune) = unat b0" by (rule unat_ucast_byte_rune)
  have le: "(ucast b0 :: rune) \<le> 0x7F" using x r by (simp add: word_le_nat_alt)
  have "unat (ucast (ucast b0 :: rune) :: byte) = unat b0"
    using x by (simp only: unat_ucast_rune_byte r) simp
  then have "(ucast (ucast b0 :: rune) :: byte) = b0" by (rule byte_eqI)
  then show ?thesis using lt le by (simp add: rune_bytes_def)
qed

lemma step2:
  assumes "(0xC2::byte) \<le> b0" "b0 \<le> 0xDF" "cont b1"
  shows "\<exists>r. decoderune (b0 # b1 # t) = (r, 2) \<and> rune_bytes r = [b0, b1]"
proof -
  let ?r = "push_bit 6 (ucast (b0 AND mask2)) OR ucast (b1 AND maskx) :: rune"
  have x0: "194 \<le> unat b0" "unat b0 \<le> 223" using assms by (simp_all add: word_le_nat_alt)
  have x1: "128 \<le> unat b1" "unat b1 \<le> 191" using assms by (simp_all add: cont_def word_le_nat_alt)
  have r: "unat ?r = (unat b0 mod 32) * 64 + unat b1 mod 64" by (rule dec2_unat)
  note A = arith2 [OF x0 x1 r]
  have lo: "128 \<le> unat ?r" and hi: "unat ?r < 2048" using A by simp_all
  have c0: "\<not> b0 < 0x80" "0xC0 \<le> b0" "b0 < 0xE0"
    using x0 by (simp_all add: word_less_nat_alt word_le_nat_alt)
  have c1: "rune1Max < ?r" "\<not> ?r \<le> rune1Max" "?r \<le> rune2Max"
    using lo hi by (simp_all add: word_less_nat_alt word_le_nat_alt)
  have dec: "decoderune (b0 # b1 # t) = (?r, 2)"
    using c0 c1(1) assms(3) by (simp add: Let_def)
  have "unat (t2 OR ucast (drop_bit 6 ?r)) = unat b0"
    using A by (simp only: enc_lead2 [OF hi])
  then have e0: "t2 OR ucast (drop_bit 6 ?r) = b0" by (rule byte_eqI)
  have "unat (tx OR (ucast ?r AND maskx)) = unat b1"
    using A by (simp only: enc_last)
  then have e1: "tx OR (ucast ?r AND maskx) = b1" by (rule byte_eqI)
  have "rune_bytes ?r = [b0, b1]"
    unfolding rune_bytes_def using c1 e0 e1 by (simp only: if_True if_False simp_thms)
  then show ?thesis using dec by blast
qed


lemma step3:
  assumes "(0xE0::byte) \<le> b0" "b0 \<le> 0xEF" "second3 b0 b1" "cont b2"
  shows "\<exists>r. decoderune (b0 # b1 # b2 # t) = (r, 3) \<and> rune_bytes r = [b0, b1, b2]"
proof -
  let ?r = "push_bit 12 (ucast (b0 AND mask3)) OR push_bit 6 (ucast (b1 AND maskx))
            OR ucast (b2 AND maskx) :: rune"
  have x0: "224 \<le> unat b0" "unat b0 \<le> 239" using assms by (simp_all add: word_le_nat_alt)
  have x1: "128 \<le> unat b1" "unat b1 \<le> 191"
    using assms(3) by (auto simp: second3_def cont_def word_le_nat_alt split: if_splits)
  have x2: "128 \<le> unat b2" "unat b2 \<le> 191" using assms by (simp_all add: cont_def word_le_nat_alt)
  have e0: "unat b0 = 224 \<longrightarrow> 160 \<le> unat b1"
    using assms(3) by (auto simp: second3_def word_le_nat_alt word_unat_eq_iff)
  have ed: "unat b0 = 237 \<longrightarrow> unat b1 \<le> 159"
    using assms(3) by (auto simp: second3_def word_le_nat_alt word_unat_eq_iff)
  have r: "unat ?r = (unat b0 mod 16) * 4096 + (unat b1 mod 64) * 64 + unat b2 mod 64"
    by (rule dec3_unat)
  note A = arith3 [OF x0 x1 x2 e0 ed r]
  have lo: "2048 \<le> unat ?r" and hi: "unat ?r < 65536"
    and sur: "unat ?r < 55296 \<or> 57343 < unat ?r" using A by simp_all
  have c0: "\<not> b0 < 0x80" "\<not> (0xC0 \<le> b0 \<and> b0 < 0xE0)" "0xE0 \<le> b0" "b0 < 0xF0"
    using x0 by (simp_all add: word_less_nat_alt word_le_nat_alt)
  have c1: "cont b1" using x1 by (simp add: cont_def word_le_nat_alt)
  have c2: "rune2Max < ?r" "\<not> (surrogateMin \<le> ?r \<and> ?r \<le> surrogateMax)"
    "\<not> ?r \<le> rune1Max" "\<not> ?r \<le> rune2Max"
    "?r < surrogateMin \<or> (surrogateMax < ?r \<and> ?r \<le> rune3Max)"
    using lo hi sur by (auto simp add: word_less_nat_alt word_le_nat_alt)
  have dec: "decoderune (b0 # b1 # b2 # t) = (?r, 3)"
    using c0 c1 c2(1,2) assms(4) by (simp add: Let_def)
  have "unat (t3 OR ucast (drop_bit 12 ?r)) = unat b0"
    using A by (simp only: enc_lead3 [OF hi])
  then have e0: "t3 OR ucast (drop_bit 12 ?r) = b0" by (rule byte_eqI)
  have "unat (tx OR (ucast (drop_bit 6 ?r) AND maskx)) = unat b1"
    using A by (simp only: enc_cont) simp
  then have e1: "tx OR (ucast (drop_bit 6 ?r) AND maskx) = b1" by (rule byte_eqI)
  have "unat (tx OR (ucast ?r AND maskx)) = unat b2"
    using A by (simp only: enc_last)
  then have e2: "tx OR (ucast ?r AND maskx) = b2" by (rule byte_eqI)
  have "rune_bytes ?r = [b0, b1, b2]"
    unfolding rune_bytes_def using c2 e0 e1 e2 by (simp only: if_True if_False simp_thms)
  then show ?thesis using dec by blast
qed

lemma step4:
  assumes "(0xF0::byte) \<le> b0" "b0 \<le> 0xF4" "second4 b0 b1" "cont b2" "cont b3"
  shows "\<exists>r. decoderune (b0 # b1 # b2 # b3 # t) = (r, 4) \<and> rune_bytes r = [b0, b1, b2, b3]"
proof -
  let ?r = "push_bit 18 (ucast (b0 AND mask4)) OR push_bit 12 (ucast (b1 AND maskx))
            OR push_bit 6 (ucast (b2 AND maskx)) OR ucast (b3 AND maskx) :: rune"
  have x0: "240 \<le> unat b0" "unat b0 \<le> 244" using assms by (simp_all add: word_le_nat_alt)
  have x1: "128 \<le> unat b1" "unat b1 \<le> 191"
    using assms(3) by (auto simp: second4_def cont_def word_le_nat_alt split: if_splits)
  have x2: "128 \<le> unat b2" "unat b2 \<le> 191" using assms by (simp_all add: cont_def word_le_nat_alt)
  have x3: "128 \<le> unat b3" "unat b3 \<le> 191" using assms by (simp_all add: cont_def word_le_nat_alt)
  have f0: "unat b0 = 240 \<longrightarrow> 144 \<le> unat b1"
    using assms(3) by (auto simp: second4_def word_le_nat_alt word_unat_eq_iff)
  have f4: "unat b0 = 244 \<longrightarrow> unat b1 \<le> 143"
    using assms(3) by (auto simp: second4_def word_le_nat_alt word_unat_eq_iff)
  have r: "unat ?r = (unat b0 mod 8) * 262144 + (unat b1 mod 64) * 4096
                     + (unat b2 mod 64) * 64 + unat b3 mod 64"
    by (rule dec4_unat)
  note A = arith4 [OF x0 x1 x2 x3 f0 f4 r]
  have lo: "65536 \<le> unat ?r" and hi: "unat ?r \<le> 1114111" using A by simp_all
  have hi': "unat ?r < 2097152" using hi by simp
  have c0: "\<not> b0 < 0x80" "\<not> (0xC0 \<le> b0 \<and> b0 < 0xE0)" "\<not> (0xE0 \<le> b0 \<and> b0 < 0xF0)"
    "0xF0 \<le> b0" "b0 < 0xF8"
    using x0 by (simp_all add: word_less_nat_alt word_le_nat_alt)
  have c1: "cont b1" using x1 by (simp add: cont_def word_le_nat_alt)
  have c2: "rune3Max < ?r" "?r \<le> MaxRune"
    "\<not> ?r \<le> rune1Max" "\<not> ?r \<le> rune2Max"
    "\<not> (?r < surrogateMin \<or> (surrogateMax < ?r \<and> ?r \<le> rune3Max))"
    using lo hi by (auto simp add: word_less_nat_alt word_le_nat_alt)
  have dec: "decoderune (b0 # b1 # b2 # b3 # t) = (?r, 4)"
    using c0 c1 c2(1,2) assms(4,5) by (simp add: Let_def)
  have "unat (t4 OR ucast (drop_bit 18 ?r)) = unat b0"
    using A by (simp only: enc_lead4 [OF hi'])
  then have e0: "t4 OR ucast (drop_bit 18 ?r) = b0" by (rule byte_eqI)
  have "unat (tx OR (ucast (drop_bit 12 ?r) AND maskx)) = unat b1"
    using A by (simp only: enc_cont) simp
  then have e1: "tx OR (ucast (drop_bit 12 ?r) AND maskx) = b1" by (rule byte_eqI)
  have "unat (tx OR (ucast (drop_bit 6 ?r) AND maskx)) = unat b2"
    using A by (simp only: enc_cont) simp
  then have e2: "tx OR (ucast (drop_bit 6 ?r) AND maskx) = b2" by (rule byte_eqI)
  have "unat (tx OR (ucast ?r AND maskx)) = unat b3"
    using A by (simp only: enc_last)
  then have e3: "tx OR (ucast ?r AND maskx) = b3" by (rule byte_eqI)
  have "rune_bytes ?r = [b0, b1, b2, b3]"
    unfolding rune_bytes_def using c2 e0 e1 e2 e3 by (simp only: if_True if_False simp_thms)
  then show ?thesis using dec by blast
qed

section \<open>The loop over the runes of a string\<close>

lemma length_write_at: "off + length bs \<le> length buf \<Longrightarrow> length (write_at buf off bs) = length buf"
  by (simp add: write_at_def)

lemma take_write_at: "n \<le> off \<Longrightarrow> off \<le> length buf \<Longrightarrow> take n (write_at buf off bs) = take n buf"
  by (simp add: write_at_def min_def)

lemma write_at_Nil: "off \<le> length buf \<Longrightarrow> write_at buf off [] = buf"
  by (simp add: write_at_def)

lemma write_at_write_at:
  "off + length bs + length cs \<le> length buf \<Longrightarrow>
   write_at (write_at buf off bs) (off + length bs) cs = write_at buf off (bs @ cs)"
proof -
  assume a: "off + length bs + length cs \<le> length buf"
  then have "take (off + length bs) (take off buf @ bs @ drop (off + length bs) buf)
             = take off buf @ bs"
    by simp
  moreover have "drop (off + length bs + length cs) (take off buf @ bs @ drop (off + length bs) buf)
             = drop (off + length bs + length cs) buf"
    using a by (simp add: add.commute)
  ultimately show ?thesis by (simp add: write_at_def add.assoc)
qed

lemma write_at_take_drop:
  assumes "w \<le> length s" "off + length s \<le> length buf"
  shows "write_at (write_at buf off (take w s)) (off + w) (drop w s) = write_at buf off s"
proof -
  have "length (take w s) = w" using assms(1) by simp
  moreover have "off + length (take w s) + length (drop w s) \<le> length buf"
    using assms by simp
  ultimately show ?thesis
    using write_at_write_at [of off "take w s" "drop w s" buf] by simp
qed

lemma drop_write_at:
  "off + length bs = length buf \<Longrightarrow> drop off (write_at buf off bs) = bs"
  by (simp add: write_at_def)

lemma valid_utf8_cases:
  assumes "valid_utf8 (b0 # t)"
  obtains (one) "b0 \<le> 0x7F" "valid_utf8 t"
    | (two) b1 t' where "0xC2 \<le> b0" "b0 \<le> 0xDF" "t = b1 # t'" "cont b1" "valid_utf8 t'"
    | (three) b1 b2 t' where "0xE0 \<le> b0" "b0 \<le> 0xEF" "t = b1 # b2 # t'" "second3 b0 b1" "cont b2"
        "valid_utf8 t'"
    | (four) b1 b2 b3 t' where "0xF0 \<le> b0" "b0 \<le> 0xF4" "t = b1 # b2 # b3 # t'" "second4 b0 b1"
        "cont b2" "cont b3" "valid_utf8 t'"
  using assms by (auto split: if_splits list.splits)


lemma valid_step:
  assumes "valid_utf8 s" "s \<noteq> []"
  shows "rune_bytes (fst (decoderune s)) = take (snd (decoderune s)) s
         \<and> 0 < snd (decoderune s) \<and> snd (decoderune s) \<le> length s
         \<and> valid_utf8 (drop (snd (decoderune s)) s)"
proof -
  obtain b0 t where s: "s = b0 # t" using assms(2) by (cases s) auto
  from assms(1) [unfolded s] show ?thesis
  proof (cases rule: valid_utf8_cases)
    case one
    have "decoderune s = (ucast b0, 1)" "rune_bytes (ucast b0) = [b0]"
      using step1 [OF one(1), of t] by (simp_all only: s)
    then show ?thesis using one(2) by (simp add: s del: decoderune.simps)
  next
    case (two b1 t')
    obtain r where "decoderune s = (r, 2)" "rune_bytes r = [b0, b1]"
      using step2 [OF two(1,2,4), of t'] unfolding s two(3) by blast
    then show ?thesis using two(5) by (simp add: s two(3) del: decoderune.simps)
  next
    case (three b1 b2 t')
    obtain r where "decoderune s = (r, 3)" "rune_bytes r = [b0, b1, b2]"
      using step3 [OF three(1,2,4,5), of t'] unfolding s three(3) by blast
    then show ?thesis using three(6) by (simp add: s three(3) del: decoderune.simps)
  next
    case (four b1 b2 b3 t')
    obtain r where "decoderune s = (r, 4)" "rune_bytes r = [b0, b1, b2, b3]"
      using step4 [OF four(1,2,4,5,6), of t'] unfolding s four(3) by blast
    then show ?thesis using four(7) by (simp add: s four(3) del: decoderune.simps)
  qed
qed


lemma range_EncodeRune_Nil: "range_EncodeRune buf base i [] = Inr buf"
  by (simp add: range_EncodeRune.simps)

lemma range_EncodeRune_step:
  "s \<noteq> [] \<Longrightarrow> range_EncodeRune buf base i s =
     (case EncodeRune buf (base + i) (fst (decoderune s)) of
        Inl e \<Rightarrow> Inl e
      | Inr buf' \<Rightarrow> range_EncodeRune buf' base (i + snd (decoderune s)) (drop (snd (decoderune s)) s))"
  by (subst range_EncodeRune.simps) simp

lemma range_EncodeRune_valid:
  "valid_utf8 s \<Longrightarrow> base + i + length s \<le> length buf \<Longrightarrow>
   range_EncodeRune buf base i s = Inr (write_at buf (base + i) s)"
proof (induction buf base i s rule: range_EncodeRune.induct)
  case (1 buf base i s)
  show ?case
  proof (cases "s = []")
    case True
    then show ?thesis using "1.prems" by (simp add: range_EncodeRune_Nil write_at_Nil)
  next
    case False
    let ?r = "fst (decoderune s)" and ?w = "snd (decoderune s)"
    note V = valid_step [OF "1.prems"(1) False]
    have rb: "rune_bytes ?r = take ?w s" and w: "?w \<le> length s"
      and v: "valid_utf8 (drop ?w s)" using V by simp_all
    have len: "length (rune_bytes ?r) = ?w" using w by (simp add: rb)
    have enc: "EncodeRune buf (base + i) ?r = Inr (write_at buf (base + i) (take ?w s))"
      using "1.prems"(2) w len by (simp add: EncodeRune_def rb)
    have l1: "length (write_at buf (base + i) (take ?w s)) = length buf"
      using "1.prems"(2) w by (intro length_write_at) simp
    have "range_EncodeRune (write_at buf (base + i) (take ?w s)) base (i + ?w) (drop ?w s)
          = Inr (write_at (write_at buf (base + i) (take ?w s)) (base + (i + ?w)) (drop ?w s))"
      using "1.prems"(2) w l1 by (intro "1.IH" [OF False enc v]) simp
    also have "write_at (write_at buf (base + i) (take ?w s)) (base + (i + ?w)) (drop ?w s)
          = write_at buf (base + i) s"
      using write_at_take_drop [OF w, of "base + i" buf] "1.prems"(2)
      by (simp only: add.assoc)
    finally show ?thesis
      by (simp add: range_EncodeRune_step [OF False] enc)
  qed
qed

lemma rune_bytes_length:
  "0 < length (rune_bytes r)"
  "rune1Max < r \<Longrightarrow> 2 \<le> length (rune_bytes r)"
  "rune2Max < r \<Longrightarrow> 3 \<le> length (rune_bytes r)"
  "rune3Max < r \<Longrightarrow> r \<le> MaxRune \<Longrightarrow> 4 \<le> length (rune_bytes r)"
  by (auto simp: rune_bytes_def word_le_nat_alt word_less_nat_alt)

lemma decoderune_result:
  "decoderune (b0 # t) = (RuneError, 1) \<or> decoderune (b0 # t) = (ucast b0, 1)
   \<or> (\<exists>r. decoderune (b0 # t) = (r, 2) \<and> rune1Max < r \<and> 1 \<le> length t)
   \<or> (\<exists>r. decoderune (b0 # t) = (r, 3) \<and> rune2Max < r \<and> 2 \<le> length t)
   \<or> (\<exists>r. decoderune (b0 # t) = (r, 4) \<and> rune3Max < r \<and> r \<le> MaxRune \<and> 3 \<le> length t)"
  by (simp add: Let_def split: list.split)

lemma decoderune_width:
  assumes "s \<noteq> []"
  shows "0 < snd (decoderune s) \<and> snd (decoderune s) \<le> length s
         \<and> snd (decoderune s) \<le> length (rune_bytes (fst (decoderune s)))"
proof -
  obtain b0 t where s: "s = b0 # t" using assms by (cases s) auto
  consider "snd (decoderune s) = 1"
    | "snd (decoderune s) = 2" "2 \<le> length s" "rune1Max < fst (decoderune s)"
    | "snd (decoderune s) = 3" "3 \<le> length s" "rune2Max < fst (decoderune s)"
    | "snd (decoderune s) = 4" "4 \<le> length s" "rune3Max < fst (decoderune s)"
        "fst (decoderune s) \<le> MaxRune"
    using decoderune_result [of b0 t] unfolding s
    by (elim disjE exE conjE) (simp_all del: decoderune.simps)
  then show ?thesis
  proof cases
    case 1
    moreover have "1 \<le> length (rune_bytes (fst (decoderune s)))"
      using rune_bytes_length(1) [of "fst (decoderune s)"] by linarith
    moreover have "1 \<le> length s" using assms by (cases s) simp_all
    ultimately show ?thesis by (simp del: decoderune.simps)
  next
    case 2
    then show ?thesis using rune_bytes_length(2) [of "fst (decoderune s)"]
      by (simp del: decoderune.simps)
  next
    case 3
    then show ?thesis using rune_bytes_length(3) [of "fst (decoderune s)"]
      by (simp del: decoderune.simps)
  next
    case 4
    then show ?thesis using rune_bytes_length(4) [of "fst (decoderune s)"]
      by (simp del: decoderune.simps)
  qed
qed

lemma range_EncodeRune_Inr:
  "range_EncodeRune buf base i s = Inr buf' \<Longrightarrow>
   length buf' = length buf \<and> take (base + i) buf' = take (base + i) buf
   \<and> (s \<noteq> [] \<longrightarrow> base + i + length s \<le> length buf)"
proof (induction buf base i s rule: range_EncodeRune.induct)
  case (1 buf base i s)
  show ?case
  proof (cases "s = []")
    case True
    then show ?thesis using "1.prems" by (simp add: range_EncodeRune_Nil)
  next
    case False
    let ?r = "fst (decoderune s)" and ?w = "snd (decoderune s)"
    note W = decoderune_width [OF False]
    obtain buf1 where enc: "EncodeRune buf (base + i) ?r = Inr buf1"
      and rest: "range_EncodeRune buf1 base (i + ?w) (drop ?w s) = Inr buf'"
      using "1.prems" by (simp add: range_EncodeRune_step [OF False] split: sum.splits)
    have fit: "base + i + length (rune_bytes ?r) \<le> length buf"
      and b1: "buf1 = write_at buf (base + i) (rune_bytes ?r)"
      using enc by (auto simp: EncodeRune_def split: if_splits)
    have l1: "length buf1 = length buf" unfolding b1 using fit by (rule length_write_at)
    have t1: "take (base + i) buf1 = take (base + i) buf"
      unfolding b1 using fit by (intro take_write_at) simp_all
    note IH = "1.IH" [OF False enc rest]
    have "take (base + i) buf' = take (base + i) (take (base + (i + ?w)) buf')"
      by (simp add: min_def)
    also have "\<dots> = take (base + i) (take (base + (i + ?w)) buf1)" using IH by simp
    also have "\<dots> = take (base + i) buf" using t1 by (simp add: min_def)
    finally have t: "take (base + i) buf' = take (base + i) buf" .
    have "base + i + length s \<le> length buf"
    proof (cases "drop ?w s = []")
      case True
      then have "length s \<le> ?w" by simp
      then show ?thesis using W fit by linarith
    next
      case False
      then have "base + (i + ?w) + length (drop ?w s) \<le> length buf1" using IH by simp
      then show ?thesis using W l1 by simp
    qed
    then show ?thesis using IH l1 t by simp
  qed
qed

section \<open>The header and the record codec\<close>

lemma length_le32: "length (le32 v) = 4"
  by (simp add: le32_def)

lemma Uint32_le32: "Uint32 (le32 v @ rest) = Inr v"
proof -
  let ?w = "ucast (ucast v :: byte) OR push_bit 8 (ucast (ucast (drop_bit 8 v) :: byte))
        OR push_bit 16 (ucast (ucast (drop_bit 16 v) :: byte))
        OR push_bit 24 (ucast (ucast (drop_bit 24 v) :: byte)) :: 32 word"
  have "?w = v"
  proof (rule bit_word_eqI)
    fix n :: nat
    assume "n < LENGTH(32)"
    then have n: "n < 32" by simp
    consider "n < 8" | "8 \<le> n" "n < 16" | "16 \<le> n" "n < 24" | "24 \<le> n" by linarith
    then show "bit ?w n = bit v n"
      using n by cases (auto simp: bit_simps)
  qed
  then show ?thesis by (simp add: le32_def)
qed


lemma PutUint32_ok:
  "off + 4 \<le> length buf \<Longrightarrow> PutUint32 buf off v = Inr (write_at buf off (le32 v))"
  by (simp add: PutUint32_def)

lemma WriteBytes_ok:
  assumes "12 \<le> length buf"
  shows "WriteBytes h buf
         = Inr (le32 (header.timestamp h) @ le32 (keySize h) @ le32 (header.valueSize h) @ drop 12 buf)"
proof -
  let ?t = "le32 (header.timestamp h)" and ?k = "le32 (keySize h)"
  and ?v = "le32 (header.valueSize h)"
  let ?b1 = "write_at buf 0 ?t"
  let ?b2 = "write_at ?b1 4 ?k"
  have b1: "?b1 = ?t @ drop 4 buf" by (simp add: write_at_def length_le32)
  have l1: "length ?b1 = length buf" using assms by (simp add: length_write_at length_le32)
  have b2: "?b2 = ?t @ ?k @ drop 8 buf" unfolding b1 by (simp add: write_at_def length_le32)
  have l2: "length ?b2 = length buf" using assms l1 by (simp add: length_write_at length_le32)
  have b3: "write_at ?b2 8 ?v = ?t @ ?k @ ?v @ drop 12 buf"
    unfolding b2 by (simp add: write_at_def length_le32)
  have "PutUint32 buf 0 (header.timestamp h) = Inr ?b1" using assms by (simp add: PutUint32_ok)
  moreover have "PutUint32 ?b1 4 (keySize h) = Inr ?b2" using assms l1 by (simp add: PutUint32_ok)
  moreover have "PutUint32 ?b2 8 (header.valueSize h) = Inr (write_at ?b2 8 ?v)"
    using assms l2 by (simp add: PutUint32_ok)
  ultimately show ?thesis by (simp add: WriteBytes_def andThen_def b3)
qed

lemma headerFromBytes_le32:
  "headerFromBytes (le32 t @ le32 k @ le32 v)
   = Inr \<lparr>header.timestamp = t, keySize = k, header.valueSize = v\<rparr>"
proof -
  have "take 4 (le32 t @ le32 k @ le32 v) = le32 t @ []"
    "take 4 (drop 4 (le32 t @ le32 k @ le32 v)) = le32 k @ []"
    "take 4 (drop 8 (le32 t @ le32 k @ le32 v)) = le32 v @ []"
    by (simp_all add: length_le32)
  then show ?thesis
    by (simp only: headerFromBytes_def Uint32_le32 andThen_def) (simp add: length_le32)
qed




lemma unat_12_plus:
  "unat (12 + k :: 32 word) = (if unat k < 2 ^ 32 - 12 then 12 + unat k else 12 + unat k - 2 ^ 32)"
proof -
  have k: "unat k < 2 ^ 32" using unsigned_less [of k] by simp
  have "unat (12 + k) = (12 + unat k) mod 2 ^ 32" by (simp add: unat_word_ariths)
  also have "\<dots> = (if unat k < 2 ^ 32 - 12 then 12 + unat k else 12 + unat k - 2 ^ 32)"
  proof (cases "unat k < 2 ^ 32 - 12")
    case True
    then show ?thesis by simp
  next
    case False
    then have "(12 + unat k) mod 2 ^ 32 = 12 + unat k - 1 * 2 ^ 32"
      using k by (intro mod_range) simp_all
    then show ?thesis using False by simp
  qed
  finally show ?thesis .
qed

lemma decodeKV_of_header:
  assumes len: "12 \<le> length (elems d)"
    and h: "headerFromBytes (take 12 (elems d)) = Inr h"
  shows "decodeKV d =
     (if unat (keySize h) < 2 ^ 32 - 12 \<and> 12 + unat (keySize h) \<le> length (elems d)
      then Inr (header.timestamp h, take (unat (keySize h)) (drop 12 (elems d)),
                drop (12 + unat (keySize h)) (elems d))
      else Inl SliceBoundsOutOfRange)"
proof -
  let ?n = "unat (12 + keySize h)"
  have hb: "slice_lo_hi d 0 12
            = Inr \<lparr>elems = take 12 (elems d), spare = drop 12 (elems d @ spare d)\<rparr>"
    using len by (simp add: slice_lo_hi_def)
  have dec: "decodeKV d =
     andThen (slice_lo_hi d 12 ?n) (\<lambda>k.
     andThen (slice_lo d ?n) (\<lambda>v. Inr (header.timestamp h, elems k, elems v)))"
    by (simp add: decodeKV_def hb h andThen_def)
  show ?thesis
  proof (cases "unat (keySize h) < 2 ^ 32 - 12")
    case True
    then have n: "?n = 12 + unat (keySize h)" by (simp add: unat_12_plus)
    show ?thesis
    proof (cases "12 + unat (keySize h) \<le> length (elems d)")
      case le: True
      then show ?thesis using True
        by (simp add: dec n slice_lo_hi_def slice_lo_def andThen_def)
    next
      case False
      then show ?thesis using True
        by (simp add: dec n slice_lo_hi_def slice_lo_def andThen_def)
    qed
  next
    case False
    have "unat (keySize h) < 2 ^ 32" using unsigned_less [of "keySize h"] by simp
    then have "?n < 12" using False by (simp add: unat_12_plus)
    then show ?thesis using False by (simp add: dec slice_lo_hi_def andThen_def)
  qed
qed


lemma unat_of_nat32_mod: "unat (of_nat n :: 32 word) = n mod 2 ^ 32"
  by (simp add: unat_of_nat)

lemma unat_of_nat32: "n < 2 ^ 32 \<Longrightarrow> unat (of_nat n :: 32 word) = n"
  by (simp add: unat_of_nat32_mod)

lemma length_header_bytes: "length (header_bytes ts ks vs) = 12"
  by (simp add: header_bytes_def length_le32)

lemma encodeKV_valid:
  assumes "valid_utf8 key" "valid_utf8 val" "length key < 2 ^ 32" "length val < 2 ^ 32"
  shows "encodeKV ts key val
         = Inr (12 + length key + length val,
                header_bytes ts (of_nat (length key)) (of_nat (length val)) @ key @ val)"
proof -
  let ?h = "\<lparr>header.timestamp = ts, keySize = of_nat (length key),
             header.valueSize = of_nat (length val)\<rparr>"
  let ?H = "header_bytes ts (of_nat (length key)) (of_nat (length val))"
  have ks: "unat (keySize ?h) = length key" using assms(3) by (simp add: unat_of_nat32)
  have kl: "KeyLen ?h = 12 + length key + length val"
    using assms(3,4) by (simp add: KeyLen_def unat_of_nat32)
  let ?buf = "makeslice (KeyLen ?h)"
  let ?buf1 = "?H @ replicate (length key + length val) 0"
  let ?buf2 = "?H @ key @ replicate (length val) 0"
  let ?buf3 = "?H @ key @ val"
  have w: "WriteBytes ?h ?buf = Inr ?buf1"
    by (simp add: WriteBytes_ok makeslice_def kl header_bytes_def)
  have "range_EncodeRune ?buf1 12 0 key = Inr (write_at ?buf1 (12 + 0) key)"
    using assms(1) by (intro range_EncodeRune_valid) (simp_all add: length_header_bytes)
  moreover have "write_at ?buf1 (12 + 0) key = ?buf2"
    by (simp add: write_at_def length_header_bytes replicate_add)
  ultimately have k: "range_EncodeRune ?buf1 12 0 key = Inr ?buf2" by simp
  have "range_EncodeRune ?buf2 (12 + length key) 0 val
        = Inr (write_at ?buf2 (12 + length key + 0) val)"
    using assms(2) by (intro range_EncodeRune_valid) (simp_all add: length_header_bytes)
  moreover have "write_at ?buf2 (12 + length key + 0) val = ?buf3"
    by (simp add: write_at_def length_header_bytes)
  ultimately have v: "range_EncodeRune ?buf2 (12 + length key) 0 val = Inr ?buf3" by simp
  show ?thesis
    unfolding encodeKV_def Let_def w andThen_def ks
    by (simp add: k v length_header_bytes)
qed


lemma headerFromBytes_header_bytes:
  "headerFromBytes (header_bytes t k v)
   = Inr \<lparr>header.timestamp = t, keySize = k, header.valueSize = v\<rparr>"
  unfolding header_bytes_def by (rule headerFromBytes_le32)

lemma encodeKV_Inr:
  assumes "encodeKV ts key val = Inr (n, data)"
  shows "n = 12 + length key + length val" "length data = 12 + length key + length val"
    "length key < 2 ^ 32" "length val < 2 ^ 32"
    "take 12 data = header_bytes ts (of_nat (length key)) (of_nat (length val))"
    "valid_utf8 val \<Longrightarrow> drop (12 + length key) data = val"
proof -
  let ?h = "\<lparr>header.timestamp = ts, keySize = of_nat (length key),
             header.valueSize = of_nat (length val)\<rparr>"
  let ?H = "header_bytes ts (of_nat (length key)) (of_nat (length val))"
  define ks where "ks = length key mod 2 ^ 32"
  define vs where "vs = length val mod 2 ^ 32"
  have ks: "unat (keySize ?h) = ks" by (simp add: ks_def unat_of_nat32_mod)
  have kl: "KeyLen ?h = 12 + ks + vs" by (simp add: KeyLen_def ks_def vs_def unat_of_nat32_mod)
  let ?buf1 = "?H @ replicate (ks + vs) 0"
  have w: "WriteBytes ?h (makeslice (KeyLen ?h)) = Inr ?buf1"
    by (simp add: WriteBytes_ok makeslice_def kl header_bytes_def)
  have l1: "length ?buf1 = 12 + ks + vs" by (simp add: length_header_bytes)
  obtain buf2 where k: "range_EncodeRune ?buf1 12 0 key = Inr buf2"
    and v: "range_EncodeRune buf2 (12 + ks) 0 val = Inr data" and n: "n = length data"
    using assms unfolding encodeKV_def Let_def w ks
    by (auto simp: andThen_def split: sum.splits)
  note K = range_EncodeRune_Inr [OF k]
  note V = range_EncodeRune_Inr [OF v]
  have l2: "length buf2 = 12 + ks + vs" using K l1 by simp
  have l3: "length data = 12 + ks + vs" using V l2 by simp
  have "length val \<le> vs"
  proof (cases "val = []")
    case True then show ?thesis by simp
  next
    case False then show ?thesis using V l2 by simp
  qed
  moreover have "vs < 2 ^ 32" unfolding vs_def by simp
  ultimately have vlen: "length val < 2 ^ 32" by linarith
  then have vs: "vs = length val" unfolding vs_def by simp
  have "length key \<le> ks + vs"
  proof (cases "key = []")
    case True then show ?thesis by simp
  next
    case False then show ?thesis using K l1 by simp
  qed
  moreover have "vs < 2 ^ 32" unfolding vs_def by simp
  moreover have "length key = (length key div 2 ^ 32) * 2 ^ 32 + ks" unfolding ks_def by simp
  ultimately have "(length key div 2 ^ 32) * 2 ^ 32 < 2 ^ 32" by linarith
  then have "length key div 2 ^ 32 = 0" by simp
  then have klen: "length key < 2 ^ 32" by (simp add: div_eq_0_iff)
  then have ks': "ks = length key" unfolding ks_def by simp
  show "n = 12 + length key + length val" using n l3 ks' vs by simp
  show "length data = 12 + length key + length val" using l3 ks' vs by simp
  show "length key < 2 ^ 32" by (rule klen)
  show "length val < 2 ^ 32" by (rule vlen)
  have "take 12 data = take 12 (take (12 + ks + 0) data)" by (simp add: min_def)
  also have "\<dots> = take 12 (take (12 + ks + 0) buf2)" using V by simp
  also have "\<dots> = take (12 + 0) buf2" by (simp add: min_def)
  also have "\<dots> = take (12 + 0) ?buf1" using K by simp
  also have "\<dots> = ?H" by (simp add: length_header_bytes)
  finally show "take 12 data = ?H" .
  show "drop (12 + length key) data = val" if "valid_utf8 val"
  proof -
    have "range_EncodeRune buf2 (12 + ks) 0 val = Inr (write_at buf2 (12 + ks + 0) val)"
      using that l2 vs by (intro range_EncodeRune_valid) simp_all
    then have "data = write_at buf2 (12 + ks) val" using v by simp
    moreover have "drop (12 + ks) (write_at buf2 (12 + ks) val) = val"
      using l2 vs by (intro drop_write_at) simp
    ultimately show ?thesis using ks' by simp
  qed
qed

section \<open>The store: a write, then a read\<close>

lemma sint64_of_nat: "n < 2 ^ 63 \<Longrightarrow> sint (of_nat n :: 64 word) = int n"
proof -
  assume a: "n < 2 ^ 63"
  have "sint (word_of_int (int n) :: 64 word) = signed_take_bit (LENGTH(64) - 1) (int n)"
    by (rule sint_sbintrunc')
  also have "\<dots> = int n"
    using a by (intro signed_take_bit_int_eq_self) simp_all
  finally show ?thesis by simp
qed

lemma of_nat_sint64: "sint (x :: 64 word) = int a \<Longrightarrow> x = of_nat a"
proof -
  assume a: "sint x = int a"
  have "x = word_of_int (sint x)" by simp
  then show ?thesis unfolding a by simp
qed

lemma unat64_of_nat: "n < 2 ^ 64 \<Longrightarrow> unat (of_nat n :: 64 word) = n"
  by (simp add: unat_of_nat)


lemma Set_Inr:
  assumes "Set d key val now w = Inr (d', w')"
  obtains data bs where
    "encodeKV (ucast now) key val = Inr (12 + length key + length val, data)"
    "\<not> closed (f d)" "files w (name (f d)) = Some bs" "length bs + length data < 2 ^ 63"
    "d' = d\<lparr>curPos := curPos d + of_nat (12 + length key + length val)\<rparr>"
    "w' = w\<lparr>files := (files w)(name (f d) \<mapsto> bs @ data),
             keyDir := (keyDir w)(key \<mapsto>
               \<lparr>fileId = 0, valueSize = of_nat (12 + length key + length val),
                valuePos = curPos d, timestamp = ucast now\<rparr>)\<rparr>"
proof -
  obtain n data where e: "encodeKV (ucast now) key val = Inr (n, data)"
    using assms by (cases "encodeKV (ucast now) key val") (auto simp: Set_def andThen_def)
  have n: "n = 12 + length key + length val" by (rule encodeKV_Inr(1) [OF e])
  obtain written w1 where wr: "Write (f d) data w = Inr (written, w1)"
    using assms by (cases "Write (f d) data w") (auto simp: Set_def andThen_def e)
  obtain bs where c: "\<not> closed (f d)" and bs: "files w (name (f d)) = Some bs"
    and sz: "length bs + length data < 2 ^ 63" and written: "written = length data"
    and w1: "w1 = w\<lparr>files := (files w)(name (f d) \<mapsto> bs @ data)\<rparr>"
    using wr by (auto simp: Write_def split: if_splits option.splits)
  have ld: "length data = n" using encodeKV_Inr(2) [OF e] n by simp
  have "d' = d\<lparr>curPos := curPos d + of_nat n\<rparr>"
    and "w' = w1\<lparr>keyDir := (keyDir w1)(key \<mapsto>
               \<lparr>fileId = 0, valueSize = of_nat n, valuePos = curPos d, timestamp = ucast now\<rparr>)\<rparr>"
    using assms by (simp_all add: Set_def andThen_def e wr written ld)
  then show thesis using that [of data bs] e c bs sz unfolding n w1 by simp
qed


lemma make_uint_record_len:
  assumes "n < 2 ^ 63"
  shows "make_uint (of_nat n) = Inr (makeslice n)"
proof -
  have "sint (of_nat n :: 64 word) = int n" using assms by (rule sint64_of_nat)
  moreover have "unat (of_nat n :: 64 word) = n" using assms by (intro unat64_of_nat) simp
  ultimately show ?thesis by (simp add: make_uint_def)
qed

lemma Get_entry:
  assumes "keyDir w key = Some \<lparr>fileId = fid, valueSize = of_nat n, valuePos = pos, timestamp = ts\<rparr>"
    and "n < 2 ^ 63"
  shows "Get d key w =
         andThen (ReadAt (f d) n pos w) (\<lambda>buf.
         andThen (decodeKV (of_bytes buf)) (\<lambda>(ts, k, val). Inr val))"
  using assms by (simp add: Get_def make_uint_record_len andThen_def makeslice_def)

lemma decodeKV_record:
  assumes "length data = 12 + klen + length val" "klen < 2 ^ 32 - 12"
    and "take 12 data = header_bytes ts (of_nat klen) vs"
    and "drop (12 + klen) data = val"
  shows "decodeKV (of_bytes data) = Inr (ts, take klen (drop 12 data), val)"
proof -
  have k: "unat (of_nat klen :: 32 word) = klen" using assms(2) by (intro unat_of_nat32) simp
  have "headerFromBytes (take 12 (elems (of_bytes data)))
        = Inr \<lparr>header.timestamp = ts, keySize = of_nat klen, header.valueSize = vs\<rparr>"
    by (simp add: of_bytes_def assms(3) headerFromBytes_header_bytes)
  moreover have "12 \<le> length (elems (of_bytes data))" using assms(1) by (simp add: of_bytes_def)
  ultimately show ?thesis
    using assms(1,2,4) by (simp add: decodeKV_of_header k of_bytes_def)
qed

lemma Get_after_Set:
  assumes ok: "store_ok d w" and set: "Set d key val now w = Inr (d', w')"
    and v: "valid_utf8 val" and k: "length key < 2 ^ 32 - 12"
  shows "Get d' key w' = Inr val"
proof -
  let ?n = "12 + length key + length val"
  from set obtain data bs where e: "encodeKV (ucast now) key val = Inr (?n, data)"
    and c: "\<not> closed (f d)" and bs: "files w (name (f d)) = Some bs"
    and sz: "length bs + length data < 2 ^ 63"
    and d': "d' = d\<lparr>curPos := curPos d + of_nat ?n\<rparr>"
    and w': "w' = w\<lparr>files := (files w)(name (f d) \<mapsto> bs @ data),
             keyDir := (keyDir w)(key \<mapsto>
               \<lparr>fileId = 0, valueSize = of_nat ?n, valuePos = curPos d,
                timestamp = ucast now\<rparr>)\<rparr>"
    by (rule Set_Inr)
  note E = encodeKV_Inr [OF e]
  have ld: "length data = ?n" using E(2) .
  have pos: "sint (curPos d) = int (length bs)" using ok bs by (simp add: store_ok_def)
  have n63: "?n < 2 ^ 63" using sz ld by simp
  have entry: "keyDir w' key = Some \<lparr>fileId = 0, valueSize = of_nat ?n, valuePos = curPos d,
                timestamp = ucast now\<rparr>" by (simp add: w')
  have rd: "ReadAt (f d') ?n (curPos d) w' = Inr data"
    using c pos ld by (simp add: ReadAt_def d' w')
  have dec: "decodeKV (of_bytes data) = Inr (ucast now, take (length key) (drop 12 data), val)"
    using ld k E(5) E(6) [OF v] by (rule decodeKV_record)
  show ?thesis
    by (simp add: Get_entry [OF entry n63] rd dec andThen_def)
qed

lemma Set_store_ok:
  assumes ok: "store_ok d w" and set: "Set d key val now w = Inr (d', w')"
  shows "store_ok d' w'"
proof -
  let ?n = "12 + length key + length val"
  from set obtain data bs where e: "encodeKV (ucast now) key val = Inr (?n, data)"
    and c: "\<not> closed (f d)" and bs: "files w (name (f d)) = Some bs"
    and sz: "length bs + length data < 2 ^ 63"
    and d': "d' = d\<lparr>curPos := curPos d + of_nat ?n\<rparr>"
    and w': "w' = w\<lparr>files := (files w)(name (f d) \<mapsto> bs @ data),
             keyDir := (keyDir w)(key \<mapsto>
               \<lparr>fileId = 0, valueSize = of_nat ?n, valuePos = curPos d,
                timestamp = ucast now\<rparr>)\<rparr>"
    by (rule Set_Inr)
  have ld: "length data = ?n" using encodeKV_Inr(2) [OF e] .
  have "sint (curPos d) = int (length bs)" using ok bs by (simp add: store_ok_def)
  then have "curPos d = of_nat (length bs)" by (rule of_nat_sint64)
  then have "curPos d + of_nat ?n = of_nat (length bs + ?n)" by simp
  moreover have "sint (of_nat (length bs + ?n) :: 64 word) = int (length bs + ?n)"
    using sz ld by (intro sint64_of_nat) simp
  ultimately have "sint (curPos d') = int (length (bs @ data))" by (simp add: d' ld)
  then show ?thesis using c by (simp add: store_ok_def d' w')
qed

section \<open>The calls on given inputs\<close>

lemma Set_valid:
  assumes "valid_utf8 key" "valid_utf8 val" "length key < 2 ^ 32" "length val < 2 ^ 32"
    and "\<not> closed (f d)" "files w (name (f d)) = Some bs"
    and "length bs + (12 + length key + length val) < 2 ^ 63"
  shows "Set d key val now w =
     Inr (d\<lparr>curPos := curPos d + of_nat (12 + length key + length val)\<rparr>,
          w\<lparr>files := (files w)(name (f d) \<mapsto>
                 bs @ header_bytes (ucast now) (of_nat (length key)) (of_nat (length val))
                    @ key @ val),
            keyDir := (keyDir w)(key \<mapsto>
               \<lparr>fileId = 0, valueSize = of_nat (12 + length key + length val),
                valuePos = curPos d, timestamp = ucast now\<rparr>)\<rparr>)"
  using assms
  by (simp add: Set_def encodeKV_valid andThen_def Write_def length_header_bytes)

lemma Set_encoded:
  assumes "encodeKV (ucast now) key val = Inr (n, data)"
    and "\<not> closed (f d)" "files w (name (f d)) = Some bs" "length bs + length data < 2 ^ 63"
  shows "Set d key val now w =
     Inr (d\<lparr>curPos := curPos d + of_nat n\<rparr>,
          w\<lparr>files := (files w)(name (f d) \<mapsto> bs @ data),
            keyDir := (keyDir w)(key \<mapsto>
               \<lparr>fileId = 0, valueSize = of_nat n, valuePos = curPos d,
                timestamp = ucast now\<rparr>)\<rparr>)"
proof -
  have "n = length data" using encodeKV_Inr(1,2) [OF assms(1)] by simp
  then show ?thesis using assms by (simp add: Set_def andThen_def Write_def)
qed

lemma rune_bytes_RuneError: "rune_bytes RuneError = [0xEF, 0xBF, 0xBD]"
  by (simp add: rune_bytes_def)

lemma encodeKV_replacement:
  "encodeKV 0 [0x6B] [0xFF, 0x61, 0x62] = Inr (16, header_bytes 0 1 3 @ [0x6B, 0xEF, 0x61, 0x62])"
proof -
  let ?h = "\<lparr>header.timestamp = 0, keySize = 1, header.valueSize = 3\<rparr>"
  let ?H = "header_bytes 0 1 3"
  have w: "WriteBytes ?h (makeslice 16) = Inr (?H @ [0, 0, 0, 0])"
    by (simp add: WriteBytes_ok makeslice_def header_bytes_def numeral_eq_Suc)
  have k: "range_EncodeRune (?H @ [0, 0, 0, 0]) 12 0 [0x6B] = Inr (?H @ [0x6B, 0, 0, 0])"
    by (simp add: range_EncodeRune_valid write_at_def length_header_bytes)
  have r1: "EncodeRune (?H @ [0x6B, 0, 0, 0]) 13 RuneError = Inr (?H @ [0x6B, 0xEF, 0xBF, 0xBD])"
    by (simp add: EncodeRune_def rune_bytes_RuneError write_at_def length_header_bytes)
  have b: "rune_bytes 0x61 = [0x61]" "rune_bytes 0x62 = [0x62]" by (simp_all add: rune_bytes_def)
  have r2: "EncodeRune (?H @ [0x6B, 0xEF, 0xBF, 0xBD]) 14 0x61 = Inr (?H @ [0x6B, 0xEF, 0x61, 0xBD])"
    by (simp add: EncodeRune_def b write_at_def length_header_bytes)
  have r3: "EncodeRune (?H @ [0x6B, 0xEF, 0x61, 0xBD]) 15 0x62 = Inr (?H @ [0x6B, 0xEF, 0x61, 0x62])"
    by (simp add: EncodeRune_def b write_at_def length_header_bytes)
  have v: "range_EncodeRune (?H @ [0x6B, 0, 0, 0]) 13 0 [0xFF, 0x61, 0x62]
           = Inr (?H @ [0x6B, 0xEF, 0x61, 0x62])"
    by (simp add: range_EncodeRune_step range_EncodeRune_Nil r1 r2 r3)
  show ?thesis
    by (simp add: encodeKV_def KeyLen_def w k v andThen_def length_header_bytes)
qed

lemma Get_record:
  assumes "keyDir w key = Some \<lparr>fileId = fid, valueSize = of_nat (12 + klen + length val),
             valuePos = of_nat (length pre), timestamp = t\<rparr>"
    and "files w (name (f d)) = Some (pre @ header_bytes ts (of_nat klen) vs @ k @ val @ post)"
    and "\<not> closed (f d)" "length k = klen" "klen < 2 ^ 32 - 12"
    and "length pre < 2 ^ 63" "12 + klen + length val < 2 ^ 63"
  shows "Get d key w = Inr val"
proof -
  let ?data = "header_bytes ts (of_nat klen) vs @ k @ val"
  have pos: "sint (of_nat (length pre) :: 64 word) = int (length pre)"
    using assms(6) by (rule sint64_of_nat)
  have rd: "ReadAt (f d) (12 + klen + length val) (of_nat (length pre)) w = Inr ?data"
    using assms(2,3,4) by (simp add: ReadAt_def pos length_header_bytes)
  have dec: "decodeKV (of_bytes ?data) = Inr (ts, take klen (drop 12 ?data), val)"
    using assms(4,5) by (intro decodeKV_record) (simp_all add: length_header_bytes)
  show ?thesis
    by (simp add: Get_entry [OF assms(1,7)] rd dec andThen_def)
qed

lemma NewDiskStore_empty_path: "NewDiskStore [] w = Inl ErrNotExist"
  by (simp add: NewDiskStore_def os_Stat_def os_OpenFile_def andThen_def)

lemma NewDiskStore_absent:
  "p \<noteq> [] \<Longrightarrow> files w p = None \<Longrightarrow>
   NewDiskStore p w = Inr (\<lparr>f = \<lparr>name = p, closed = False\<rparr>, curPos = 0\<rparr>,
                           w\<lparr>files := (files w)(p \<mapsto> [])\<rparr>)"
  by (simp add: NewDiskStore_def os_Stat_def os_OpenFile_def andThen_def)

lemma NewDiskStore_present:
  "p \<noteq> [] \<Longrightarrow> files w p = Some bs \<Longrightarrow>
   NewDiskStore p w = Inr (\<lparr>f = \<lparr>name = p, closed = False\<rparr>, curPos = of_nat (length bs)\<rparr>, w)"
  by (simp add: NewDiskStore_def os_Stat_def os_OpenFile_def andThen_def)

lemma NewDiskStore_Inr:
  "p \<noteq> [] \<Longrightarrow>
   \<exists>d w'. NewDiskStore p w = Inr (d, w') \<and> keyDir w' = keyDir w
           \<and> name (f d) = p \<and> \<not> closed (f d)"
  by (cases "files w p") (simp_all add: NewDiskStore_absent NewDiskStore_present)

lemma NewDiskStore_store_ok:
  assumes "NewDiskStore p w = Inr (d, w')"
    and "\<And>bs. files w p = Some bs \<Longrightarrow> length bs < 2 ^ 63"
  shows "store_ok d w'"
proof -
  have p: "p \<noteq> []" using assms(1) by (auto simp: NewDiskStore_empty_path)
  show ?thesis
  proof (cases "files w p")
    case None
    then show ?thesis using assms(1) p by (auto simp: NewDiskStore_absent store_ok_def)
  next
    case (Some bs)
    then have "sint (of_nat (length bs) :: 64 word) = int (length bs)"
      using assms(2) by (intro sint64_of_nat) simp
    then show ?thesis using assms(1) Some p by (auto simp: NewDiskStore_present store_ok_def)
  qed
qed

lemma valid_utf8_replicate: "b \<le> 0x7F \<Longrightarrow> valid_utf8 (replicate n b)"
  by (induction n) simp_all

lemma decodeKV_encodeKV:
  assumes "valid_utf8 key" "valid_utf8 val" "length key < 2 ^ 32 - 12" "length val < 2 ^ 32"
  shows "\<exists>data. encodeKV ts key val = Inr (12 + length key + length val, data)
           \<and> decodeKV (of_bytes data) = Inr (ts, key, val)"
proof -
  let ?data = "header_bytes ts (of_nat (length key)) (of_nat (length val)) @ key @ val"
  have "length key < 2 ^ 32" using assms(3) by simp
  then have e: "encodeKV ts key val = Inr (12 + length key + length val, ?data)"
    using assms(1,2,4) by (intro encodeKV_valid)
  have "decodeKV (of_bytes ?data) = Inr (ts, take (length key) (drop 12 ?data), val)"
    using assms(3) by (intro decodeKV_record) (simp_all add: length_header_bytes)
  then have "decodeKV (of_bytes ?data) = Inr (ts, key, val)"
    by (simp add: length_header_bytes)
  then show ?thesis using e by blast
qed

lemma decodeKV_wrap:
  assumes "2 ^ 32 - 12 \<le> unat ks"
  shows "decodeKV (of_bytes (header_bytes ts ks vs @ rest)) = Inl SliceBoundsOutOfRange"
proof -
  let ?d = "of_bytes (header_bytes ts ks vs @ rest)"
  have "headerFromBytes (take 12 (elems ?d))
        = Inr \<lparr>header.timestamp = ts, keySize = ks, header.valueSize = vs\<rparr>"
    by (simp add: of_bytes_def length_header_bytes headerFromBytes_header_bytes)
  moreover have "12 \<le> length (elems ?d)" by (simp add: of_bytes_def length_header_bytes)
  ultimately show ?thesis using assms by (simp add: decodeKV_of_header)
qed

section \<open>Reopening a store\<close>

text \<open>C1: after \<open>Set(k, v)\<close>, \<open>Close\<close> and \<open>Open\<close> on the same path, \<open>Get(k)\<close> returns \<open>v\<close>, because \<open>Open\<close>
  replays the log and rebuilds the index. The code does not: \<open>NewDiskStore\<close> never reads the
  file, and the index of a new process is empty. One process creates \<open>books.db\<close>, sets
  \<open>"othello"\<close> to \<open>"shakespeare"\<close> and closes the store; the file then holds the 30-byte record.
  A second process opens the same path: \<open>NewDiskStore\<close> returns a store with cursor 30 and
  leaves \<open>keyDir\<close> empty, and \<open>Get("othello")\<close> returns the empty string.\<close>

theorem reopen_without_replay:
  "NewDiskStore books_db (process_start Map.empty) = Inr (fresh_store, fresh_world)
   \<and> Set fresh_store othello shakespeare 0 fresh_world =
       Inr (\<lparr>f = \<lparr>name = books_db, closed = False\<rparr>, curPos = 30\<rparr>,
            \<lparr>files = [books_db \<mapsto> header_bytes 0 7 11 @ othello @ shakespeare],
             keyDir = [othello \<mapsto> \<lparr>fileId = 0, valueSize = 30, valuePos = 0, timestamp = 0\<rparr>]\<rparr>)
   \<and> Close \<lparr>f = \<lparr>name = books_db, closed = False\<rparr>, curPos = 30\<rparr>
       = Inr (True, \<lparr>f = \<lparr>name = books_db, closed = True\<rparr>, curPos = 30\<rparr>)
   \<and> NewDiskStore books_db
         (process_start [books_db \<mapsto> header_bytes 0 7 11 @ othello @ shakespeare])
       = Inr (\<lparr>f = \<lparr>name = books_db, closed = False\<rparr>, curPos = 30\<rparr>,
              \<lparr>files = [books_db \<mapsto> header_bytes 0 7 11 @ othello @ shakespeare],
               keyDir = Map.empty\<rparr>)
   \<and> Get \<lparr>f = \<lparr>name = books_db, closed = False\<rparr>, curPos = 30\<rparr> othello
         \<lparr>files = [books_db \<mapsto> header_bytes 0 7 11 @ othello @ shakespeare],
          keyDir = Map.empty\<rparr>
       = Inr []"
proof -
  have n1: "NewDiskStore books_db (process_start Map.empty) = Inr (fresh_store, fresh_world)"
    by (simp add: NewDiskStore_absent process_start_def keyDir_init_def)
  have s: "Set fresh_store othello shakespeare 0 fresh_world =
       Inr (\<lparr>f = \<lparr>name = books_db, closed = False\<rparr>, curPos = 30\<rparr>,
            \<lparr>files = [books_db \<mapsto> header_bytes 0 7 11 @ othello @ shakespeare],
             keyDir = [othello \<mapsto> \<lparr>fileId = 0, valueSize = 30, valuePos = 0, timestamp = 0\<rparr>]\<rparr>)"
    by (simp add: Set_valid [where bs = "[]"])
  have c: "Close \<lparr>f = \<lparr>name = books_db, closed = False\<rparr>, curPos = 30\<rparr>
       = Inr (True, \<lparr>f = \<lparr>name = books_db, closed = True\<rparr>, curPos = 30\<rparr>)"
    by (simp add: Close_def os_Close_def andThen_def)
  have n2: "NewDiskStore books_db
         (process_start [books_db \<mapsto> header_bytes 0 7 11 @ othello @ shakespeare])
       = Inr (\<lparr>f = \<lparr>name = books_db, closed = False\<rparr>, curPos = 30\<rparr>,
              \<lparr>files = [books_db \<mapsto> header_bytes 0 7 11 @ othello @ shakespeare],
               keyDir = Map.empty\<rparr>)"
    by (simp add: NewDiskStore_present [where bs = "header_bytes 0 7 11 @ othello @ shakespeare"]
          process_start_def keyDir_init_def length_header_bytes)
  have g: "Get \<lparr>f = \<lparr>name = books_db, closed = False\<rparr>, curPos = 30\<rparr> othello
         \<lparr>files = [books_db \<mapsto> header_bytes 0 7 11 @ othello @ shakespeare],
          keyDir = Map.empty\<rparr>
       = Inr []"
    by (simp add: Get_def)
  show ?thesis using n1 s c n2 g by simp
qed

section \<open>The round trip of the codec\<close>

text \<open>C2: decoding the buffer that \<open>encodeKV\<close> produces gives back the timestamp, the key and
  the value, for every key and value of valid UTF-8. The code breaks this for a key of
  \<open>2^32 - 12\<close> to \<open>2^32 - 1\<close> bytes, sizes the header can hold: for the key of 4294967284 bytes
  \<open>a\<close> and the empty value, \<open>encodeKV\<close> returns the record of 4294967296 bytes, and \<open>decodeKV\<close>
  on that record panics, because its \<open>uint32\<close> sum \<open>12 + keySize\<close> wraps to 0 and the slice
  expression \<open>data[12:0]\<close> is out of bounds.\<close>

theorem decodeKV_encodeKV_long_key:
  "valid_utf8 (replicate 4294967284 0x61)
   \<and> encodeKV 0 (replicate 4294967284 0x61) []
       = Inr (4294967296, header_bytes 0 4294967284 0 @ replicate 4294967284 0x61)
   \<and> decodeKV (of_bytes (header_bytes 0 4294967284 0 @ replicate 4294967284 0x61))
       = Inl SliceBoundsOutOfRange"
proof -
  have v: "valid_utf8 (replicate 4294967284 0x61)" by (rule valid_utf8_replicate) simp
  have e: "encodeKV 0 (replicate 4294967284 0x61) []
       = Inr (4294967296, header_bytes 0 4294967284 0 @ replicate 4294967284 0x61)"
    using encodeKV_valid [OF v, of "[]" 0] by simp
  have d: "decodeKV (of_bytes (header_bytes 0 4294967284 0 @ replicate 4294967284 0x61))
       = Inl SliceBoundsOutOfRange"
    by (rule decodeKV_wrap) simp
  show ?thesis using v e d by simp
qed

section \<open>The index entry that \<open>Set\<close> stores\<close>

text \<open>C3 as stated: a successful \<open>Set(k, v)\<close> at cursor \<open>c\<close> stores an entry whose offset is
  \<open>c + 12 + len(k)\<close> and whose size is \<open>len(v)\<close>. It fails on the code: after \<open>Set("k", "v")\<close> on
  an empty store the entry holds position 0, not 13, and size 14, not 1.\<close>

theorem Set_index_entry_counterexample:
  "Set fresh_store [0x6B] [0x76] 0 fresh_world =
     Inr (\<lparr>f = \<lparr>name = books_db, closed = False\<rparr>, curPos = 14\<rparr>,
          \<lparr>files = [books_db \<mapsto> header_bytes 0 1 1 @ [0x6B, 0x76]],
           keyDir = [[0x6B] \<mapsto> \<lparr>fileId = 0, valueSize = 14, valuePos = 0, timestamp = 0\<rparr>]\<rparr>)
   \<and> (0 :: 64 word) \<noteq> 0 + 12 + of_nat (length [0x6B :: byte])
   \<and> (14 :: 64 word) \<noteq> of_nat (length [0x76 :: byte])"
  by (simp add: Set_valid [where bs = "[]"])

text \<open>C3, amended: for every store with cursor \<open>c\<close> and every key and value, a successful
  \<open>Set(k, v)\<close> stores for \<open>k\<close> the entry whose \<open>valuePos\<close> is \<open>c\<close>, the start of the record, and
  whose \<open>valueSize\<close> is the length of the whole record, \<open>12 + len(k) + len(v)\<close>, and advances
  the cursor by that length. \<open>Get\<close> reads the whole record back and decodes it.\<close>

theorem Set_index_entry:
  assumes "Set d key val now w = Inr (d', w')"
  shows "keyDir w' key =
           Some \<lparr>fileId = 0, valueSize = of_nat (12 + length key + length val),
                 valuePos = curPos d, timestamp = ucast now\<rparr>
         \<and> curPos d' = curPos d + of_nat (12 + length key + length val)"
  using assms by (elim Set_Inr) simp

text \<open>The amended C3 at \<open>Set("k", "v")\<close> on an empty store.\<close>

theorem Set_index_entry_witness:
  "Set fresh_store [0x6B] [0x76] 0 fresh_world =
     Inr (\<lparr>f = \<lparr>name = books_db, closed = False\<rparr>, curPos = 14\<rparr>,
          \<lparr>files = [books_db \<mapsto> header_bytes 0 1 1 @ [0x6B, 0x76]],
           keyDir = [[0x6B] \<mapsto> \<lparr>fileId = 0, valueSize = 14, valuePos = 0, timestamp = 0\<rparr>]\<rparr>)
   \<and> keyDir \<lparr>files = [books_db \<mapsto> header_bytes 0 1 1 @ [0x6B, 0x76]],
           keyDir = [[0x6B] \<mapsto> \<lparr>fileId = 0, valueSize = 14, valuePos = 0, timestamp = 0\<rparr>]\<rparr>
         [0x6B]
       = Some \<lparr>fileId = 0, valueSize = of_nat (12 + length [0x6B :: byte] + length [0x76 :: byte]),
               valuePos = curPos fresh_store, timestamp = ucast (0 :: 64 word)\<rparr>
   \<and> curPos \<lparr>f = \<lparr>name = books_db, closed = False\<rparr>, curPos = 14\<rparr>
       = curPos fresh_store + of_nat (12 + length [0x6B :: byte] + length [0x76 :: byte])"
proof -
  have h: "Set fresh_store [0x6B] [0x76] 0 fresh_world =
     Inr (\<lparr>f = \<lparr>name = books_db, closed = False\<rparr>, curPos = 14\<rparr>,
          \<lparr>files = [books_db \<mapsto> header_bytes 0 1 1 @ [0x6B, 0x76]],
           keyDir = [[0x6B] \<mapsto> \<lparr>fileId = 0, valueSize = 14, valuePos = 0, timestamp = 0\<rparr>]\<rparr>)"
    by (simp add: Set_valid [where bs = "[]"])
  show ?thesis using h Set_index_entry [OF h] by simp
qed

section \<open>\<open>Set\<close>, then \<open>Get\<close>\<close>

text \<open>Where the write and the read agree: for every store whose file is open and whose
  cursor is the length of its file, every value that is valid UTF-8 and every key of fewer
  than \<open>2^32 - 12\<close> bytes, \<open>Get\<close> after a successful \<open>Set\<close> returns the value (lemma
  \<open>Get_after_Set\<close>). Outside UTF-8 text the loop over the runes stores a value changed: the
  three bytes \<open>FF 61 62\<close> read back as \<open>EF 61 62\<close>.\<close>

lemma Set_then_Get_replacement:
  "Set fresh_store [0x6B] [0xFF, 0x61, 0x62] 0 fresh_world =
     Inr (\<lparr>f = \<lparr>name = books_db, closed = False\<rparr>, curPos = 16\<rparr>,
          \<lparr>files = [books_db \<mapsto> header_bytes 0 1 3 @ [0x6B, 0xEF, 0x61, 0x62]],
           keyDir = [[0x6B] \<mapsto> \<lparr>fileId = 0, valueSize = 16, valuePos = 0, timestamp = 0\<rparr>]\<rparr>)
   \<and> Get \<lparr>f = \<lparr>name = books_db, closed = False\<rparr>, curPos = 16\<rparr> [0x6B]
         \<lparr>files = [books_db \<mapsto> header_bytes 0 1 3 @ [0x6B, 0xEF, 0x61, 0x62]],
          keyDir = [[0x6B] \<mapsto> \<lparr>fileId = 0, valueSize = 16, valuePos = 0, timestamp = 0\<rparr>]\<rparr>
       = Inr [0xEF, 0x61, 0x62]
   \<and> [0xEF, 0x61, 0x62] \<noteq> [0xFF, 0x61, 0x62 :: byte]"
proof -
  have s: "Set fresh_store [0x6B] [0xFF, 0x61, 0x62] 0 fresh_world =
     Inr (\<lparr>f = \<lparr>name = books_db, closed = False\<rparr>, curPos = 16\<rparr>,
          \<lparr>files = [books_db \<mapsto> header_bytes 0 1 3 @ [0x6B, 0xEF, 0x61, 0x62]],
           keyDir = [[0x6B] \<mapsto> \<lparr>fileId = 0, valueSize = 16, valuePos = 0, timestamp = 0\<rparr>]\<rparr>)"
  proof -
    have e: "encodeKV (ucast (0 :: 64 word)) [0x6B] [0xFF, 0x61, 0x62]
             = Inr (16, header_bytes 0 1 3 @ [0x6B, 0xEF, 0x61, 0x62])"
      using encodeKV_replacement by simp
    show ?thesis
      using Set_encoded [OF e, where bs = "[]" and d = fresh_store and w = fresh_world]
      by (simp add: length_header_bytes)
  qed
  have g: "Get \<lparr>f = \<lparr>name = books_db, closed = False\<rparr>, curPos = 16\<rparr> [0x6B]
         \<lparr>files = [books_db \<mapsto> header_bytes 0 1 3 @ [0x6B, 0xEF, 0x61, 0x62]],
          keyDir = [[0x6B] \<mapsto> \<lparr>fileId = 0, valueSize = 16, valuePos = 0, timestamp = 0\<rparr>]\<rparr>
       = Inr [0xEF, 0x61, 0x62]"
    by (rule Get_record [where pre = "[]" and post = "[]" and klen = 1 and k = "[0x6B]"
          and ts = 0 and vs = 3]) simp_all
  show ?thesis using s g by simp
qed

text \<open>C4: immediately after a successful \<open>Set(k, v)\<close>, \<open>Get(k)\<close> through the same store returns
  \<open>v\<close>, for every key and value. The code breaks this for a key of \<open>2^32 - 12\<close> to \<open>2^32 - 1\<close>
  bytes, sizes the header can hold: on the store of a new file, \<open>Set\<close> of the key of
  4294967284 bytes \<open>a\<close> and the value \<open>"v"\<close>, both valid UTF-8, succeeds and writes the record of
  4294967297 bytes; \<open>Get\<close> of that key then reads the record and panics in \<open>decodeKV\<close>, whose
  \<open>uint32\<close> sum \<open>12 + keySize\<close> wraps to 0, where the claim says it returns \<open>"v"\<close>.\<close>

theorem Set_then_Get_long_key:
  "store_ok fresh_store fresh_world
   \<and> valid_utf8 (replicate 4294967284 0x61) \<and> valid_utf8 [0x76]
   \<and> Set fresh_store (replicate 4294967284 0x61) [0x76] 0 fresh_world =
       Inr (\<lparr>f = \<lparr>name = books_db, closed = False\<rparr>, curPos = 4294967297\<rparr>,
            \<lparr>files = [books_db \<mapsto>
                      header_bytes 0 4294967284 1 @ replicate 4294967284 0x61 @ [0x76]],
             keyDir = [replicate 4294967284 0x61 \<mapsto>
               \<lparr>fileId = 0, valueSize = 4294967297, valuePos = 0, timestamp = 0\<rparr>]\<rparr>)
   \<and> Get \<lparr>f = \<lparr>name = books_db, closed = False\<rparr>, curPos = 4294967297\<rparr>
         (replicate 4294967284 0x61)
         \<lparr>files = [books_db \<mapsto>
                   header_bytes 0 4294967284 1 @ replicate 4294967284 0x61 @ [0x76]],
          keyDir = [replicate 4294967284 0x61 \<mapsto>
            \<lparr>fileId = 0, valueSize = 4294967297, valuePos = 0, timestamp = 0\<rparr>]\<rparr>
       = Inl SliceBoundsOutOfRange"
proof -
  let ?K = "replicate 4294967284 0x61 :: byte list"
  let ?R = "header_bytes 0 4294967284 1 @ ?K @ [0x76]"
  let ?W = "\<lparr>files = [books_db \<mapsto> ?R],
          keyDir = [?K \<mapsto> \<lparr>fileId = 0, valueSize = 4294967297, valuePos = 0, timestamp = 0\<rparr>]\<rparr>"
  have ok: "store_ok fresh_store fresh_world" by (simp add: store_ok_def)
  have vk: "valid_utf8 ?K" by (rule valid_utf8_replicate) simp
  have vv: "valid_utf8 [0x76]" by simp
  have s: "Set fresh_store ?K [0x76] 0 fresh_world =
       Inr (\<lparr>f = \<lparr>name = books_db, closed = False\<rparr>, curPos = 4294967297\<rparr>, ?W)"
    using vk by (simp add: Set_valid [where bs = "[]"])
  have e: "keyDir ?W ?K
           = Some \<lparr>fileId = 0, valueSize = of_nat 4294967297, valuePos = 0, timestamp = 0\<rparr>"
    by simp
  have rd: "ReadAt \<lparr>name = books_db, closed = False\<rparr> 4294967297 0 ?W = Inr ?R"
    by (simp add: ReadAt_def length_header_bytes)
  have d: "decodeKV (of_bytes ?R) = Inl SliceBoundsOutOfRange"
    by (rule decodeKV_wrap) simp
  have g: "Get \<lparr>f = \<lparr>name = books_db, closed = False\<rparr>, curPos = 4294967297\<rparr> ?K ?W
           = Inl SliceBoundsOutOfRange"
    by (simp add: Get_entry [OF e] rd d andThen_def)
  show ?thesis using ok vk vv s g by simp
qed

section \<open>Two \<open>Set\<close> calls for one key\<close>

lemma Get_after_Set_twice:
  assumes "store_ok d w" and "Set d key v1 now1 w = Inr (d1, w1)"
    and "Set d1 key v2 now2 w1 = Inr (d2, w2)"
    and "valid_utf8 v2" and "length key < 2 ^ 32 - 12"
  shows "Get d2 key w2 = Inr v2"
    and "keyDir w2 key =
           Some \<lparr>fileId = 0, valueSize = of_nat (12 + length key + length v2),
                 valuePos = curPos d1, timestamp = ucast now2\<rparr>"
    and "curPos d1 = curPos d + of_nat (12 + length key + length v1)"
proof -
  have ok1: "store_ok d1 w1" using assms(1,2) by (rule Set_store_ok)
  show "Get d2 key w2 = Inr v2" using ok1 assms(3,4,5) by (rule Get_after_Set)
  show "keyDir w2 key =
           Some \<lparr>fileId = 0, valueSize = of_nat (12 + length key + length v2),
                 valuePos = curPos d1, timestamp = ucast now2\<rparr>"
    using assms(3) by (elim Set_Inr) simp
  show "curPos d1 = curPos d + of_nat (12 + length key + length v1)"
    using assms(2) by (elim Set_Inr) simp
qed

text \<open>C5: after \<open>Set(k, v1)\<close> and \<open>Set(k, v2)\<close>, \<open>Get(k)\<close> returns \<open>v2\<close>, for every key and every pair
  of values. For the keys and the values \<open>v2\<close> of lemma \<open>Get_after_Set_twice\<close> the code does
  so, and the one entry for \<open>k\<close> is that of the second record. It breaks the claim for a key
  of \<open>2^32 - 12\<close> to \<open>2^32 - 1\<close> bytes: on the store of a new file, \<open>Set\<close> of the key of
  4294967284 bytes \<open>a\<close> to \<open>"v"\<close> and then to \<open>"w"\<close> succeeds twice, the index entry for the key
  is that of the second record, at offset 4294967297, and \<open>Get\<close> of the key reads that
  record and panics in \<open>decodeKV\<close>, whose \<open>uint32\<close> sum \<open>12 + keySize\<close> wraps to 0, where the
  claim says it returns \<open>"w"\<close>.\<close>

theorem Set_twice_then_Get_long_key:
  "store_ok fresh_store fresh_world
   \<and> valid_utf8 (replicate 4294967284 0x61) \<and> valid_utf8 [0x76] \<and> valid_utf8 [0x77]
   \<and> Set fresh_store (replicate 4294967284 0x61) [0x76] 0 fresh_world =
       Inr (\<lparr>f = \<lparr>name = books_db, closed = False\<rparr>, curPos = 4294967297\<rparr>,
            \<lparr>files = [books_db \<mapsto>
                      header_bytes 0 4294967284 1 @ replicate 4294967284 0x61 @ [0x76]],
             keyDir = [replicate 4294967284 0x61 \<mapsto>
               \<lparr>fileId = 0, valueSize = 4294967297, valuePos = 0, timestamp = 0\<rparr>]\<rparr>)
   \<and> Set \<lparr>f = \<lparr>name = books_db, closed = False\<rparr>, curPos = 4294967297\<rparr>
         (replicate 4294967284 0x61) [0x77] 0
         \<lparr>files = [books_db \<mapsto>
                   header_bytes 0 4294967284 1 @ replicate 4294967284 0x61 @ [0x76]],
          keyDir = [replicate 4294967284 0x61 \<mapsto>
            \<lparr>fileId = 0, valueSize = 4294967297, valuePos = 0, timestamp = 0\<rparr>]\<rparr>
       = Inr (\<lparr>f = \<lparr>name = books_db, closed = False\<rparr>, curPos = 8589934594\<rparr>,
              \<lparr>files = [books_db \<mapsto>
                        (header_bytes 0 4294967284 1 @ replicate 4294967284 0x61 @ [0x76])
                        @ header_bytes 0 4294967284 1 @ replicate 4294967284 0x61 @ [0x77]],
               keyDir = [replicate 4294967284 0x61 \<mapsto>
                 \<lparr>fileId = 0, valueSize = 4294967297, valuePos = 4294967297,
                  timestamp = 0\<rparr>]\<rparr>)
   \<and> Get \<lparr>f = \<lparr>name = books_db, closed = False\<rparr>, curPos = 8589934594\<rparr>
         (replicate 4294967284 0x61)
         \<lparr>files = [books_db \<mapsto>
                   (header_bytes 0 4294967284 1 @ replicate 4294967284 0x61 @ [0x76])
                   @ header_bytes 0 4294967284 1 @ replicate 4294967284 0x61 @ [0x77]],
          keyDir = [replicate 4294967284 0x61 \<mapsto>
            \<lparr>fileId = 0, valueSize = 4294967297, valuePos = 4294967297, timestamp = 0\<rparr>]\<rparr>
       = Inl SliceBoundsOutOfRange"
proof -
  let ?K = "replicate 4294967284 0x61 :: byte list"
  let ?R1 = "header_bytes 0 4294967284 1 @ ?K @ [0x76]"
  let ?R2 = "header_bytes 0 4294967284 1 @ ?K @ [0x77]"
  let ?D1 = "\<lparr>f = \<lparr>name = books_db, closed = False\<rparr>, curPos = 4294967297\<rparr>"
  let ?W1 = "\<lparr>files = [books_db \<mapsto> ?R1],
          keyDir = [?K \<mapsto> \<lparr>fileId = 0, valueSize = 4294967297, valuePos = 0, timestamp = 0\<rparr>]\<rparr>"
  let ?D2 = "\<lparr>f = \<lparr>name = books_db, closed = False\<rparr>, curPos = 8589934594\<rparr>"
  let ?W2 = "\<lparr>files = [books_db \<mapsto> ?R1 @ ?R2],
          keyDir = [?K \<mapsto> \<lparr>fileId = 0, valueSize = 4294967297, valuePos = 4294967297,
                           timestamp = 0\<rparr>]\<rparr>"
  have ok: "store_ok fresh_store fresh_world" by (simp add: store_ok_def)
  have vk: "valid_utf8 ?K" by (rule valid_utf8_replicate) simp
  have vv: "valid_utf8 [0x76]" "valid_utf8 [0x77]" by simp_all
  have l1: "length ?R1 = 4294967297" by (simp add: length_header_bytes)
  have s1: "Set fresh_store ?K [0x76] 0 fresh_world = Inr (?D1, ?W1)"
    using vk by (simp add: Set_valid [where bs = "[]"])
  have s2: "Set ?D1 ?K [0x77] 0 ?W1 = Inr (?D2, ?W2)"
    using vk l1 by (simp add: Set_valid [where bs = ?R1])
  have e: "keyDir ?W2 ?K
           = Some \<lparr>fileId = 0, valueSize = of_nat 4294967297, valuePos = 4294967297,
                   timestamp = 0\<rparr>"
    by simp
  have rd: "ReadAt \<lparr>name = books_db, closed = False\<rparr> 4294967297 4294967297 ?W2 = Inr ?R2"
    by (simp add: ReadAt_def length_header_bytes)
  have d: "decodeKV (of_bytes ?R2) = Inl SliceBoundsOutOfRange"
    by (rule decodeKV_wrap) simp
  have "Get ?D2 ?K ?W2 =
          andThen (ReadAt (f ?D2) 4294967297 4294967297 ?W2) (\<lambda>buf.
          andThen (decodeKV (of_bytes buf)) (\<lambda>(ts, k, val). Inr val))"
    by (rule Get_entry [OF e]) simp
  then have g: "Get ?D2 ?K ?W2 = Inl SliceBoundsOutOfRange"
    using rd d by (simp add: andThen_def)
  show ?thesis using ok vk vv s1 s2 g by simp
qed

section \<open>Opening a truncated file\<close>

text \<open>C6: \<open>Open\<close> on a file truncated in the middle of a record fails with a truncated-record
  error. The code does not look at the file: for a 14-byte file whose header gives key
  size 3 and value size 5, so that the record needs 20 bytes, \<open>NewDiskStore\<close> returns a store
  with cursor 14 and no error.\<close>

theorem open_truncated_file:
  "headerFromBytes (take 12 [0, 0, 0, 0, 3, 0, 0, 0, 5, 0, 0, 0, 0x61, 0x62])
     = Inr \<lparr>header.timestamp = 0, keySize = 3, header.valueSize = 5\<rparr>
   \<and> length [0, 0, 0, 0, 3, 0, 0, 0, 5, 0, 0, 0, 0x61, 0x62 :: byte]
       < KeyLen \<lparr>header.timestamp = 0, keySize = 3, header.valueSize = 5\<rparr>
   \<and> NewDiskStore books_db
         (process_start [books_db \<mapsto> [0, 0, 0, 0, 3, 0, 0, 0, 5, 0, 0, 0, 0x61, 0x62]])
       = Inr (\<lparr>f = \<lparr>name = books_db, closed = False\<rparr>, curPos = 14\<rparr>,
              \<lparr>files = [books_db \<mapsto> [0, 0, 0, 0, 3, 0, 0, 0, 5, 0, 0, 0, 0x61, 0x62]],
               keyDir = Map.empty\<rparr>)"
proof -
  have h: "headerFromBytes (take 12 [0, 0, 0, 0, 3, 0, 0, 0, 5, 0, 0, 0, 0x61, 0x62])
     = Inr \<lparr>header.timestamp = 0, keySize = 3, header.valueSize = 5\<rparr>"
    by (simp add: headerFromBytes_def andThen_def)
  have n: "NewDiskStore books_db
         (process_start [books_db \<mapsto> [0, 0, 0, 0, 3, 0, 0, 0, 5, 0, 0, 0, 0x61, 0x62]])
       = Inr (\<lparr>f = \<lparr>name = books_db, closed = False\<rparr>, curPos = 14\<rparr>,
              \<lparr>files = [books_db \<mapsto> [0, 0, 0, 0, 3, 0, 0, 0, 5, 0, 0, 0, 0x61, 0x62]],
               keyDir = Map.empty\<rparr>)"
    by (simp add: NewDiskStore_present
          [where bs = "[0, 0, 0, 0, 3, 0, 0, 0, 5, 0, 0, 0, 0x61, 0x62]"]
          process_start_def keyDir_init_def)
  show ?thesis using h n by (simp add: KeyLen_def)
qed

section \<open>Lookup of a key that is not in the index\<close>

text \<open>C7: for every store and every key that has no entry in \<open>keyDir\<close>, \<open>Get\<close> returns the
  not-found result, the empty string, and never an error: it returns before any read of the
  file.\<close>

theorem Get_absent_key:
  "keyDir w key = None \<Longrightarrow> Get d key w = Inr []"
  by (simp add: Get_def)

theorem Get_absent_key_witness:
  "keyDir fresh_world [0x6B] = None \<and> Get fresh_store [0x6B] fresh_world = Inr []"
proof -
  have h: "keyDir fresh_world [0x6B] = None" by simp
  show ?thesis using h Get_absent_key [OF h, of fresh_store] by simp
qed

section \<open>The lengths \<open>decodeKV\<close> checks\<close>




section \<open>One index for all stores\<close>

text \<open>C9 as stated: the index of a store is its own, and a \<open>Set\<close> through one store never
  changes what a \<open>Get\<close> through another observes. It fails on the code, where \<open>keyDir\<close> is
  one package-level map: with two stores opened on two new files, \<open>Get("k")\<close> through the
  second returns not-found; after \<open>Set("k", "v")\<close> through the first, the same \<open>Get\<close> finds the
  first store's entry, reads 14 bytes at offset 0 of its own, empty file, and panics with
  \<open>io.EOF\<close>.\<close>

theorem shared_keyDir_counterexample:
  "NewDiskStore b_db (process_start Map.empty)
     = Inr (store_b, \<lparr>files = [b_db \<mapsto> []], keyDir = Map.empty\<rparr>)
   \<and> NewDiskStore a_db \<lparr>files = [b_db \<mapsto> []], keyDir = Map.empty\<rparr> = Inr (store_a, two_files)
   \<and> Get store_b [0x6B] two_files = Inr []
   \<and> Set store_a [0x6B] [0x76] 0 two_files =
       Inr (\<lparr>f = \<lparr>name = a_db, closed = False\<rparr>, curPos = 14\<rparr>,
            \<lparr>files = [b_db \<mapsto> [], a_db \<mapsto> header_bytes 0 1 1 @ [0x6B, 0x76]],
             keyDir = [[0x6B] \<mapsto> \<lparr>fileId = 0, valueSize = 14, valuePos = 0, timestamp = 0\<rparr>]\<rparr>)
   \<and> Get store_b [0x6B]
         \<lparr>files = [b_db \<mapsto> [], a_db \<mapsto> header_bytes 0 1 1 @ [0x6B, 0x76]],
          keyDir = [[0x6B] \<mapsto> \<lparr>fileId = 0, valueSize = 14, valuePos = 0, timestamp = 0\<rparr>]\<rparr>
       = Inl ErrEOF"
proof -
  have n1: "NewDiskStore b_db (process_start Map.empty)
     = Inr (store_b, \<lparr>files = [b_db \<mapsto> []], keyDir = Map.empty\<rparr>)"
    by (simp add: NewDiskStore_absent process_start_def keyDir_init_def)
  have n2: "NewDiskStore a_db \<lparr>files = [b_db \<mapsto> []], keyDir = Map.empty\<rparr> = Inr (store_a, two_files)"
    by (simp add: NewDiskStore_absent)
  have g0: "Get store_b [0x6B] two_files = Inr []" by (simp add: Get_def)
  have s: "Set store_a [0x6B] [0x76] 0 two_files =
       Inr (\<lparr>f = \<lparr>name = a_db, closed = False\<rparr>, curPos = 14\<rparr>,
            \<lparr>files = [b_db \<mapsto> [], a_db \<mapsto> header_bytes 0 1 1 @ [0x6B, 0x76]],
             keyDir = [[0x6B] \<mapsto> \<lparr>fileId = 0, valueSize = 14, valuePos = 0, timestamp = 0\<rparr>]\<rparr>)"
    by (simp add: Set_valid [where bs = "[]"])
  have e: "keyDir \<lparr>files = [b_db \<mapsto> [], a_db \<mapsto> header_bytes 0 1 1 @ [0x6B, 0x76]],
          keyDir = [[0x6B] \<mapsto> \<lparr>fileId = 0, valueSize = 14, valuePos = 0, timestamp = 0\<rparr>]\<rparr> [0x6B]
        = Some \<lparr>fileId = 0, valueSize = of_nat 14, valuePos = 0, timestamp = 0\<rparr>"
    by simp
  have g1: "Get store_b [0x6B]
         \<lparr>files = [b_db \<mapsto> [], a_db \<mapsto> header_bytes 0 1 1 @ [0x6B, 0x76]],
          keyDir = [[0x6B] \<mapsto> \<lparr>fileId = 0, valueSize = 14, valuePos = 0, timestamp = 0\<rparr>]\<rparr>
       = Inl ErrEOF"
    by (simp add: Get_entry [OF e] ReadAt_def andThen_def)
  show ?thesis using n1 n2 g0 s g1 by simp
qed

text \<open>C9, amended: \<open>keyDir\<close> is one map shared by every store of the process. After a successful
  \<open>Set(k, v)\<close> through one store, a \<open>Get(k)\<close> through any store, the same or another, finds the
  entry that \<open>Set\<close> wrote: it reads \<open>12 + len(k) + len(v)\<close> bytes of its own file at the first
  store's cursor before the \<open>Set\<close>, and decodes them.\<close>

theorem shared_keyDir:
  assumes "Set d1 key val now w = Inr (d1', w')"
  shows "Get d2 key w' =
         andThen (ReadAt (f d2) (12 + length key + length val) (curPos d1) w') (\<lambda>buf.
         andThen (decodeKV (of_bytes buf)) (\<lambda>(ts, k, v). Inr v))"
proof -
  let ?n = "12 + length key + length val"
  from assms obtain data bs where e: "encodeKV (ucast now) key val = Inr (?n, data)"
    and sz: "length bs + length data < 2 ^ 63"
    and w': "w' = w\<lparr>files := (files w)(name (f d1) \<mapsto> bs @ data),
             keyDir := (keyDir w)(key \<mapsto>
               \<lparr>fileId = 0, valueSize = of_nat ?n, valuePos = curPos d1,
                timestamp = ucast now\<rparr>)\<rparr>"
    by (rule Set_Inr)
  have "length data = ?n" using encodeKV_Inr(2) [OF e] .
  then have n: "?n < 2 ^ 63" using sz by simp
  have entry: "keyDir w' key = Some \<lparr>fileId = 0, valueSize = of_nat ?n, valuePos = curPos d1,
                timestamp = ucast now\<rparr>" by (simp add: w')
  show ?thesis by (rule Get_entry [OF entry n])
qed

text \<open>The amended C9 at the two stores above: the second store's \<open>Get\<close> is the read of 14 bytes
  at offset 0 of its own file.\<close>

theorem shared_keyDir_witness:
  "Set store_a [0x6B] [0x76] 0 two_files =
       Inr (\<lparr>f = \<lparr>name = a_db, closed = False\<rparr>, curPos = 14\<rparr>,
            \<lparr>files = [b_db \<mapsto> [], a_db \<mapsto> header_bytes 0 1 1 @ [0x6B, 0x76]],
             keyDir = [[0x6B] \<mapsto> \<lparr>fileId = 0, valueSize = 14, valuePos = 0, timestamp = 0\<rparr>]\<rparr>)
   \<and> Get store_b [0x6B]
         \<lparr>files = [b_db \<mapsto> [], a_db \<mapsto> header_bytes 0 1 1 @ [0x6B, 0x76]],
          keyDir = [[0x6B] \<mapsto> \<lparr>fileId = 0, valueSize = 14, valuePos = 0, timestamp = 0\<rparr>]\<rparr>
       = andThen (ReadAt (f store_b) (12 + length [0x6B :: byte] + length [0x76 :: byte])
                    (curPos store_a)
                    \<lparr>files = [b_db \<mapsto> [], a_db \<mapsto> header_bytes 0 1 1 @ [0x6B, 0x76]],
                     keyDir = [[0x6B] \<mapsto>
                       \<lparr>fileId = 0, valueSize = 14, valuePos = 0, timestamp = 0\<rparr>]\<rparr>)
           (\<lambda>buf. andThen (decodeKV (of_bytes buf)) (\<lambda>(ts, k, v). Inr v))"
proof -
  have s: "Set store_a [0x6B] [0x76] 0 two_files =
       Inr (\<lparr>f = \<lparr>name = a_db, closed = False\<rparr>, curPos = 14\<rparr>,
            \<lparr>files = [b_db \<mapsto> [], a_db \<mapsto> header_bytes 0 1 1 @ [0x6B, 0x76]],
             keyDir = [[0x6B] \<mapsto> \<lparr>fileId = 0, valueSize = 14, valuePos = 0, timestamp = 0\<rparr>]\<rparr>)"
    by (simp add: Set_valid [where bs = "[]"])
  show ?thesis using s shared_keyDir [OF s, of store_b] by simp
qed

section \<open>Not found and the empty value\<close>

text \<open>C10: \<open>Get(k)\<close> returns the empty string both when \<open>k\<close> was never set and when the last
  \<open>Set\<close> for \<open>k\<close> stored the empty value, for every key. For the key of 4294967284 bytes \<open>a\<close>
  the two differ: before any \<open>Set\<close>, \<open>Get\<close> returns the empty string; \<open>Set\<close> of the empty value
  succeeds and writes the record of 4294967296 bytes; \<open>Get\<close> then reads the record and panics
  in \<open>decodeKV\<close>, whose \<open>uint32\<close> sum \<open>12 + keySize\<close> wraps.\<close>

theorem Get_empty_value_long_key:
  "Get fresh_store (replicate 4294967284 0x61) fresh_world = Inr []
   \<and> Set fresh_store (replicate 4294967284 0x61) [] 0 fresh_world =
       Inr (\<lparr>f = \<lparr>name = books_db, closed = False\<rparr>, curPos = 4294967296\<rparr>,
            \<lparr>files = [books_db \<mapsto> header_bytes 0 4294967284 0 @ replicate 4294967284 0x61],
             keyDir = [replicate 4294967284 0x61 \<mapsto>
               \<lparr>fileId = 0, valueSize = 4294967296, valuePos = 0, timestamp = 0\<rparr>]\<rparr>)
   \<and> Get \<lparr>f = \<lparr>name = books_db, closed = False\<rparr>, curPos = 4294967296\<rparr>
         (replicate 4294967284 0x61)
         \<lparr>files = [books_db \<mapsto> header_bytes 0 4294967284 0 @ replicate 4294967284 0x61],
          keyDir = [replicate 4294967284 0x61 \<mapsto>
            \<lparr>fileId = 0, valueSize = 4294967296, valuePos = 0, timestamp = 0\<rparr>]\<rparr>
       = Inl SliceBoundsOutOfRange"
proof -
  let ?K = "replicate 4294967284 0x61 :: byte list"
  let ?W = "\<lparr>files = [books_db \<mapsto> header_bytes 0 4294967284 0 @ ?K],
          keyDir = [?K \<mapsto> \<lparr>fileId = 0, valueSize = 4294967296, valuePos = 0, timestamp = 0\<rparr>]\<rparr>"
  have g0: "Get fresh_store ?K fresh_world = Inr []" by (simp add: Get_def)
  have v: "valid_utf8 ?K" by (rule valid_utf8_replicate) simp
  have s: "Set fresh_store ?K [] 0 fresh_world =
       Inr (\<lparr>f = \<lparr>name = books_db, closed = False\<rparr>, curPos = 4294967296\<rparr>, ?W)"
    using v by (simp add: Set_valid [where bs = "[]"])
  have e: "keyDir ?W ?K
           = Some \<lparr>fileId = 0, valueSize = of_nat 4294967296, valuePos = 0, timestamp = 0\<rparr>"
    by simp
  have rd: "ReadAt \<lparr>name = books_db, closed = False\<rparr> 4294967296 0 ?W
            = Inr (header_bytes 0 4294967284 0 @ ?K)"
    by (simp add: ReadAt_def length_header_bytes)
  have d: "decodeKV (of_bytes (header_bytes 0 4294967284 0 @ ?K)) = Inl SliceBoundsOutOfRange"
    by (rule decodeKV_wrap) simp
  have g1: "Get \<lparr>f = \<lparr>name = books_db, closed = False\<rparr>, curPos = 4294967296\<rparr> ?K ?W
            = Inl SliceBoundsOutOfRange"
    by (simp add: Get_entry [OF e] rd d andThen_def)
  show ?thesis using g0 s g1 by simp
qed

end
